theory Spec2Isabelle
  imports Main "HOL-Library.Word"
begin

unbundle bit_operations_syntax

section \<open>The cross-reference stream reader (ptext/pdf/xref/stream_xref.py)\<close>

subsection \<open>Values, errors and references\<close>

text \<open>
  Every \<^verbatim>\<open>raise\<close>, failed \<^verbatim>\<open>assert\<close> and out-of-range index of
  \<^verbatim>\<open>StreamXREF.read\<close> is a value of this type. \<open>TypeError\<close> stands for what
  \<^verbatim>\<open>int(x)\<close> raises on an object that is no number.
\<close>

datatype error = PDFTypeError | PDFValueError | AssertionError | IndexError | TypeError

type_synonym byte = "8 word"

type_synonym document = nat

text \<open>
  The objects found under \<^verbatim>\<open>/W\<close>, \<^verbatim>\<open>/Size\<close> and \<^verbatim>\<open>/Index\<close>: \<open>Decimal n\<close> is a
  \<^verbatim>\<open>Decimal\<close> whose \<^verbatim>\<open>int(...)\<close> is \<open>n\<close>; \<open>NotDecimal\<close> is any object for which
  \<^verbatim>\<open>isinstance(x, Decimal)\<close> is false.
\<close>

datatype pdf_object = Decimal int | NotDecimal

fun is_Decimal :: "pdf_object \<Rightarrow> bool" where
  "is_Decimal (Decimal n) = True"
| "is_Decimal NotDecimal = False"

fun int_of :: "pdf_object \<Rightarrow> error + int" where
  "int_of (Decimal n) = Inr n"
| "int_of NotDecimal = Inl TypeError"

text \<open>\<^verbatim>\<open>[int(x) for x in xs]\<close>.\<close>

fun ints_of :: "pdf_object list \<Rightarrow> error + int list" where
  "ints_of [] = Inr []"
| "ints_of (x # xs) =
     (case int_of x of Inl e \<Rightarrow> Inl e
      | Inr n \<Rightarrow> (case ints_of xs of Inl e \<Rightarrow> Inl e | Inr ns \<Rightarrow> Inr (n # ns)))"

text \<open>
  Modelled from the spec: the class \<^verbatim>\<open>Reference\<close> (ptext/io/read_transform/types.py is
  not among the sources). Section 3 of the specification lists its fields: an object
  number (both source files test it against \<^verbatim>\<open>None\<close>, so it is optional here), a
  generation number, the flag \<open>is_in_use\<close>, an optional byte offset, the
  optional pair parent stream object number and index in the parent stream, and the back
  edge to the owning document. The constructor calls of \<^verbatim>\<open>read\<close> leave out
  \<^verbatim>\<open>is_in_use\<close> for entries of type 1 and 2, which its comments call "in use": the
  default of the flag is \<open>True\<close>; every other argument left out is \<^verbatim>\<open>None\<close>.
\<close>

record reference =
  object_number :: "int option"
  generation_number :: int
  parent_stream_object_number :: "int option"
  index_in_parent_stream :: "int option"
  byte_offset :: "int option"
  is_in_use :: bool
  document :: "document option"

record xref_stream =
  W :: "pdf_object list option"
  Size :: "pdf_object option"
  Index :: "pdf_object list option"
  DecodedBytes :: "byte list"

subsection \<open>Reading one entry\<close>

text \<open>
  One of the three field loops:
  \<^verbatim>\<open>for j in range(0, w): v = (v << 8) + (bytes[bptr] & 0xFF); bptr += 1\<close>.
  The first argument counts the iterations left. Indexing past the end of the decoded
  bytes raises \<^verbatim>\<open>IndexError\<close>.
\<close>

fun read_field :: "byte list \<Rightarrow> nat \<Rightarrow> int \<Rightarrow> nat \<Rightarrow> error + (int \<times> nat)" where
  "read_field bs 0 v bptr = Inr (v, bptr)"
| "read_field bs (Suc j) v bptr =
     (if bptr < length bs
      then read_field bs j (push_bit 8 v + uint (bs ! bptr AND 0xFF)) (Suc bptr)
      else Inl IndexError)"

text \<open>\<^verbatim>\<open>widths[k]\<close> raises \<^verbatim>\<open>IndexError\<close> when \<^verbatim>\<open>/W\<close> has too few elements.\<close>

definition width_at :: "int list \<Rightarrow> nat \<Rightarrow> error + int" where
  "width_at widths k = (if k < length widths then Inr (widths ! k) else Inl IndexError)"

text \<open>
  Lines 116 to 134: the type (default 1 when \<^verbatim>\<open>widths[0]\<close> is not positive), field 2 and
  field 3 (default 0), read from \<open>bptr\<close> on. The result carries the new \<open>bptr\<close>.
\<close>

definition read_entry :: "int list \<Rightarrow> byte list \<Rightarrow> nat \<Rightarrow> error + (int \<times> int \<times> int \<times> nat)" where
  "read_entry widths bs bptr =
     (case width_at widths 0 of Inl e \<Rightarrow> Inl e | Inr w1 \<Rightarrow>
      (case (if w1 > 0 then read_field bs (nat w1) 0 bptr else Inr (1, bptr)) of
         Inl e \<Rightarrow> Inl e
       | Inr (type, bptr1) \<Rightarrow>
      (case width_at widths 1 of Inl e \<Rightarrow> Inl e | Inr w2 \<Rightarrow>
      (case read_field bs (nat w2) 0 bptr1 of Inl e \<Rightarrow> Inl e | Inr (field2, bptr2) \<Rightarrow>
      (case width_at widths 2 of Inl e \<Rightarrow> Inl e | Inr w3 \<Rightarrow>
      (case read_field bs (nat w3) 0 bptr2 of Inl e \<Rightarrow> Inl e | Inr (field3, bptr3) \<Rightarrow>
         Inr (type, field2, field3, bptr3)))))))"

text \<open>
  Lines 136 to 183: \<^verbatim>\<open>assert type in [0, 1, 2]\<close>, then the \<^verbatim>\<open>Reference\<close> of the entry.
\<close>

definition make_reference :: "document option \<Rightarrow> int \<Rightarrow> int \<Rightarrow> int \<Rightarrow> int \<Rightarrow> error + reference" where
  "make_reference doc object_no type field2 field3 =
     (if type = 0 then
        Inr \<lparr>object_number = Some object_no, generation_number = field3,
             parent_stream_object_number = None, index_in_parent_stream = None,
             byte_offset = Some field2, is_in_use = False, document = doc\<rparr>
      else if type = 1 then
        Inr \<lparr>object_number = Some object_no, generation_number = field3,
             parent_stream_object_number = None, index_in_parent_stream = None,
             byte_offset = Some field2, is_in_use = True, document = doc\<rparr>
      else if type = 2 then
        Inr \<lparr>object_number = Some object_no, generation_number = 0,
             parent_stream_object_number = Some field2, index_in_parent_stream = Some field3,
             byte_offset = None, is_in_use = True, document = doc\<rparr>
      else Inl AssertionError)"

subsection \<open>Merging an entry into the list of references\<close>

text \<open>
  \<^verbatim>\<open>existing_indirect_ref\<close> is the first element of the list with the object number of
  the entry. It is an element of the list, so assigning to its attributes changes the list
  at that position: \<open>update_first\<close> applies \<open>f\<close> to the first element that satisfies \<open>P\<close>.
\<close>

fun update_first :: "('a \<Rightarrow> bool) \<Rightarrow> ('a \<Rightarrow> 'a) \<Rightarrow> 'a list \<Rightarrow> 'a list" where
  "update_first P f [] = []"
| "update_first P f (x # xs) = (if P x then f x # xs else x # update_first P f xs)"

definition existing_indirect_ref :: "reference list \<Rightarrow> int \<Rightarrow> reference option" where
  "existing_indirect_ref indirect_references object_no =
     find (\<lambda>x. object_number x = Some object_no) indirect_references"

definition ref_is_in_reading_state :: "reference option \<Rightarrow> reference \<Rightarrow> bool" where
  "ref_is_in_reading_state existing r =
     (case existing of None \<Rightarrow> False
      | Some e \<Rightarrow> is_in_use e \<and> generation_number e = generation_number r)"

definition ref_is_first_encountered :: "reference option \<Rightarrow> reference \<Rightarrow> bool" where
  "ref_is_first_encountered existing r =
     (case existing of None \<Rightarrow> True
      | Some e \<Rightarrow> \<not> ref_is_in_reading_state existing r \<and> document e = None)"

text \<open>Lines 185 to 219, the block under the comment \<^verbatim>\<open># append\<close>.\<close>

definition append_reference :: "reference list \<Rightarrow> int \<Rightarrow> reference \<Rightarrow> reference list" where
  "append_reference indirect_references object_no r =
     (let existing = existing_indirect_ref indirect_references object_no in
      if ref_is_first_encountered existing r then indirect_references @ [r]
      else if ref_is_in_reading_state existing r then
        update_first (\<lambda>x. object_number x = Some object_no)
          (\<lambda>e. e\<lparr>index_in_parent_stream := index_in_parent_stream r,
                 parent_stream_object_number := parent_stream_object_number r\<rparr>)
          indirect_references
      else indirect_references)"

subsection \<open>The two loops and \<^verbatim>\<open>read\<close>\<close>

text \<open>
  The inner loop \<^verbatim>\<open>for i in range(0, length)\<close>: \<open>object_no\<close> is \<^verbatim>\<open>start + i\<close>, the
  second-to-last argument counts the iterations left. An error leaves the loop at once.
\<close>

fun read_entries ::
  "document option \<Rightarrow> int list \<Rightarrow> byte list \<Rightarrow> int \<Rightarrow> nat \<Rightarrow> nat \<Rightarrow> reference list
     \<Rightarrow> error + reference list" where
  "read_entries doc widths bs object_no 0 bptr refs = Inr refs"
| "read_entries doc widths bs object_no (Suc n) bptr refs =
     (case read_entry widths bs bptr of Inl e \<Rightarrow> Inl e
      | Inr (type, field2, field3, bptr') \<Rightarrow>
     (case make_reference doc object_no type field2 field3 of Inl e \<Rightarrow> Inl e
      | Inr r \<Rightarrow>
        read_entries doc widths bs (object_no + 1) n bptr'
          (append_reference refs object_no r)))"

text \<open>
  The outer loop \<^verbatim>\<open>for idx in range(0, len(index), 2)\<close> over the pairs of \<^verbatim>\<open>/Index\<close>.
  The source sets \<^verbatim>\<open>bptr = 0\<close> inside this loop, at the start of every subsection.
  A negative count gives an empty \<^verbatim>\<open>range\<close>.
\<close>

fun read_ranges ::
  "document option \<Rightarrow> int list \<Rightarrow> byte list \<Rightarrow> pdf_object list \<Rightarrow> reference list
     \<Rightarrow> error + reference list" where
  "read_ranges doc widths bs [] refs = Inr refs"
| "read_ranges doc widths bs [x] refs =
     (case int_of x of Inl e \<Rightarrow> Inl e | Inr start \<Rightarrow> Inl IndexError)"
| "read_ranges doc widths bs (x # y # index) refs =
     (case int_of x of Inl e \<Rightarrow> Inl e | Inr start \<Rightarrow>
     (case int_of y of Inl e \<Rightarrow> Inl e | Inr len \<Rightarrow>
     (case read_entries doc widths bs start (nat len) 0 refs of Inl e \<Rightarrow> Inl e
      | Inr refs' \<Rightarrow> read_ranges doc widths bs index refs')))"

text \<open>Lines 90 to 99: the checked \<^verbatim>\<open>/Index\<close>, or its default \<^verbatim>\<open>[0, Size]\<close>.\<close>

definition get_index :: "xref_stream \<Rightarrow> int \<Rightarrow> error + pdf_object list" where
  "get_index xref number_of_objects =
     (case Index xref of
        None \<Rightarrow> Inr [Decimal 0, Decimal number_of_objects]
      | Some index \<Rightarrow>
          if length index mod 2 \<noteq> 0 then Inl AssertionError
          else if length index = 0 then Inl IndexError
          else if \<not> is_Decimal (index ! 0) then Inl AssertionError
          else if \<not> is_Decimal (index ! 1) then Inl AssertionError
          else Inr index)"

text \<open>The free-list head that \<^verbatim>\<open>read\<close> puts first in its list (lines 68 to 76).\<close>

definition free_list_head :: "document option \<Rightarrow> reference" where
  "free_list_head doc =
     \<lparr>object_number = Some 0, generation_number = 65535,
      parent_stream_object_number = None, index_in_parent_stream = None,
      byte_offset = None, is_in_use = False, document = doc\<rparr>"

text \<open>
  Modelled from the spec: \<^verbatim>\<open>get_root()\<close>, which is attached to the xref object by code
  that is not among the sources. By section 3 of the specification every reference holds
  the back edge to its owning document; \<^verbatim>\<open>read\<close> is therefore given that document \<open>d\<close>,
  and builds its references with \<open>Some d\<close>.
\<close>

definition get_root :: "document \<Rightarrow> document option" where
  "get_root d = Some d"

text \<open>
  \<^verbatim>\<open>StreamXREF.read\<close> from the point where the stream object has been parsed. The result
  is the list \<^verbatim>\<open>indirect_references\<close>, whose elements the last loop hands to
  \<^verbatim>\<open>self.append\<close> in order; an error is raised before that loop, so nothing reaches the
  xref then. \<^verbatim>\<open>DecodedBytes\<close> is what \<^verbatim>\<open>decode_stream\<close> has produced.
\<close>

definition read :: "document \<Rightarrow> xref_stream \<Rightarrow> error + reference list" where
  "read d xref =
     (case W xref of None \<Rightarrow> Inl PDFTypeError
      | Some ws \<Rightarrow>
        if list_ex (\<lambda>x. \<not> is_Decimal x) ws then Inl PDFValueError
        else
     (case ints_of ws of Inl e \<Rightarrow> Inl e
      | Inr widths \<Rightarrow>
     (let doc = get_root d;
          indirect_references = [free_list_head doc]
      in
     (case Size xref of None \<Rightarrow> Inl PDFTypeError
      | Some sz \<Rightarrow>
        if \<not> is_Decimal sz then Inl PDFTypeError
        else
     (case int_of sz of Inl e \<Rightarrow> Inl e | Inr number_of_objects \<Rightarrow>
     (case get_index xref number_of_objects of Inl e \<Rightarrow> Inl e
      | Inr index \<Rightarrow>
          read_ranges doc widths (DecodedBytes xref) index indirect_references))))))"

text \<open>
  The number of bytes one entry takes: the three loops advance \<open>bptr\<close> once per
  iteration, and a width that is not positive gives an empty \<^verbatim>\<open>range\<close>.
\<close>

definition entry_width :: "int list \<Rightarrow> nat" where
  "entry_width widths = nat (widths ! 0) + nat (widths ! 1) + nat (widths ! 2)"

text \<open>
  What the list \<^verbatim>\<open>indirect_references\<close> satisfies throughout \<^verbatim>\<open>read\<close> when the
  references carry the document \<open>doc\<close>: the free-list head stays in front, no object
  number occurs twice, and every reference belongs to \<open>doc\<close>.
\<close>

definition refs_inv :: "document option \<Rightarrow> reference list \<Rightarrow> bool" where
  "refs_inv doc refs \<longleftrightarrow>
     refs \<noteq> [] \<and> hd refs = free_list_head doc \<and> distinct (map object_number refs) \<and>
     list_all (\<lambda>r. document r = doc) refs"




subsection \<open>Example streams\<close>

text \<open>
  Small cross-reference streams on which the properties below are evaluated. All have
  one-byte fields but the last two; \<open>stream_bad_type\<close> starts with an entry of type 3,
  \<open>stream_two_subsections\<close> has the subsections of objects 3 and 5,
  \<open>stream_overlap\<close> names object 2 in two subsections, \<open>stream_type_only\<close> has
  \<^verbatim>\<open>/W [1 0 0]\<close>, and \<open>stream_head_entry\<close> holds an entry for object 0 that is free
  with generation 65535.
\<close>

definition stream_bad_type :: xref_stream where
  "stream_bad_type =
     \<lparr>W = Some [Decimal 1, Decimal 1, Decimal 1], Size = Some (Decimal 2), Index = None,
      DecodedBytes = [3, 0, 0, 1, 10, 0]\<rparr>"

definition stream_two_subsections :: xref_stream where
  "stream_two_subsections =
     \<lparr>W = Some [Decimal 1, Decimal 1, Decimal 1], Size = Some (Decimal 6),
      Index = Some [Decimal 3, Decimal 1, Decimal 5, Decimal 1],
      DecodedBytes = [1, 10, 0, 1, 20, 0]\<rparr>"


definition stream_type_only :: xref_stream where
  "stream_type_only =
     \<lparr>W = Some [Decimal 1, Decimal 0, Decimal 0], Size = Some (Decimal 3), Index = None,
      DecodedBytes = [0, 1, 2]\<rparr>"

definition stream_head_entry :: xref_stream where
  "stream_head_entry =
     \<lparr>W = Some [Decimal 1, Decimal 1, Decimal 2], Size = Some (Decimal 2), Index = None,
      DecodedBytes = [0, 0, 255, 255, 1, 10, 0, 0]\<rparr>"

section \<open>The dictionary writer (ptext/io/write_transform/object/write_dictionary_transformer.py)\<close>

subsection \<open>Values, the object graph and the write context\<close>

text \<open>
  The values a dictionary holds. A scalar is held directly; a \<^verbatim>\<open>Reference\<close> found as a
  value is \<open>Indirect\<close>; a \<^verbatim>\<open>Dictionary\<close>, \<^verbatim>\<open>List\<close>, \<^verbatim>\<open>Stream\<close> or \<^verbatim>\<open>Image\<close> is an
  object with identity, held by its address in the store of the objects, so that a
  dictionary can hold itself.
\<close>

datatype pdf_value =
    Null | Boolean bool | Number int | Name string | String string
  | Indirect reference
  | Composite nat

datatype content =
    Dictionary "(string \<times> pdf_value) list"
  | List "pdf_value list"
  | Stream "(string \<times> pdf_value) list" "byte list"
  | Image

text \<open>
  An object of the store: what it holds, and the back-reference that
  \<^verbatim>\<open>get_reference()\<close> returns (\<^verbatim>\<open>None\<close> when the object is not indirect).
\<close>

record pdf_node =
  content :: content
  back_reference :: "reference option"

text \<open>
  What has been written to \<^verbatim>\<open>context.destination\<close>, one element per call of \<^verbatim>\<open>write\<close>.
  \<open>Raw\<close> holds the bytes that \<^verbatim>\<open>transform\<close> writes itself. The other writers are not
  among the sources, and their output is kept by kind instead of as bytes: \<open>StartObject r\<close>
  is the line \<^verbatim>\<open>N G obj\<close> of the reference \<open>r\<close>, \<open>EndObject\<close> the line \<^verbatim>\<open>endobj\<close>,
  \<open>Leaf v\<close> the text of a scalar, \<open>IndirectRef r\<close> the text \<^verbatim>\<open>N G R\<close>, and \<open>Body c\<close> the
  body of an array, a stream or an image.
\<close>

datatype chunk =
    Raw string
  | StartObject reference
  | EndObject
  | Leaf pdf_value
  | IndirectRef reference
  | Body content

text \<open>
  Modelled from the spec: \<^verbatim>\<open>TransformerWriteContext\<close> (section 4.7), which is not among
  the sources: the destination, the references already emitted and the allocator of object
  numbers. The store of the objects is carried along with it, since \<^verbatim>\<open>get_reference\<close>
  and \<^verbatim>\<open>start_object\<close> write into the back-references of the objects.
\<close>

record write_context =
  objects :: "pdf_node list"
  destination :: "chunk list"
  duplicate_references :: "reference list"
  next_object_number :: int

definition destination_write :: "chunk \<Rightarrow> write_context \<Rightarrow> write_context" where
  "destination_write c ctx = ctx\<lparr>destination := destination ctx @ [c]\<rparr>"

definition set_reference :: "nat \<Rightarrow> reference \<Rightarrow> write_context \<Rightarrow> write_context" where
  "set_reference a r ctx =
     ctx\<lparr>objects := (objects ctx)[a := (objects ctx ! a)\<lparr>back_reference := Some r\<rparr>]\<rparr>"

subsection \<open>The helpers of the base transformer\<close>

text \<open>
  Modelled from the spec: \<^verbatim>\<open>get_reference(v, ctx)\<close> of \<^verbatim>\<open>WriteBaseTransformer\<close>, which
  is not among the sources (section 4.6, identity assignment): when \<open>v\<close> carries a
  back-reference that has an object number, that reference is returned; otherwise the
  next unused object number is allocated, attached to \<open>v\<close> as its back-reference, and
  returned.
\<close>

definition new_reference :: "int \<Rightarrow> reference" where
  "new_reference n =
     \<lparr>object_number = Some n, generation_number = 0,
      parent_stream_object_number = None, index_in_parent_stream = None,
      byte_offset = None, is_in_use = True, document = None\<rparr>"

definition get_reference :: "nat \<Rightarrow> write_context \<Rightarrow> reference \<times> write_context" where
  "get_reference a ctx =
     (let fresh = new_reference (next_object_number ctx);
          allocated =
            (fresh, (set_reference a fresh ctx)\<lparr>next_object_number := next_object_number ctx + 1\<rparr>)
      in case back_reference (objects ctx ! a) of
           None \<Rightarrow> allocated
         | Some r \<Rightarrow> if object_number r \<noteq> None then (r, ctx) else allocated)"

text \<open>
  Modelled from the spec: \<^verbatim>\<open>start_object\<close> and \<^verbatim>\<open>end_object\<close> of
  \<^verbatim>\<open>WriteBaseTransformer\<close> (section 4.6, emission order, step 2): the position of the
  destination is recorded as the byte offset of the object's reference and the line
  \<^verbatim>\<open>N G obj\<close> is written; \<^verbatim>\<open>end_object\<close> writes \<^verbatim>\<open>endobj\<close>. Positions are counted
  in writes.
\<close>

definition start_object :: "nat \<Rightarrow> write_context \<Rightarrow> write_context" where
  "start_object a ctx =
     (case back_reference (objects ctx ! a) of
        None \<Rightarrow> ctx
      | Some r \<Rightarrow>
          (let r' = r\<lparr>byte_offset := Some (int (length (destination ctx)))\<rparr>
           in destination_write (StartObject r') (set_reference a r' ctx)))"

definition end_object :: "nat \<Rightarrow> write_context \<Rightarrow> write_context" where
  "end_object a ctx = destination_write EndObject ctx"

subsection \<open>\<^verbatim>\<open>WriteDictionaryTransformer.transform\<close>\<close>

text \<open>
  \<^verbatim>\<open>isinstance(v, Dictionary) or isinstance(v, List) or isinstance(v, Stream) or
  isinstance(v, Image)\<close>: the address of \<open>v\<close> when it is one of these.
\<close>

fun composite_address :: "pdf_value \<Rightarrow> nat option" where
  "composite_address (Composite a) = Some a"
| "composite_address v = None"

text \<open>
  \<^verbatim>\<open>out_value[k] = v\<close> on a dictionary that keeps insertion order: a new key goes to the
  end, a key already there keeps its place.
\<close>

fun dict_set :: "string \<Rightarrow> pdf_value \<Rightarrow> (string \<times> pdf_value) list \<Rightarrow> (string \<times> pdf_value) list" where
  "dict_set k v [] = [(k, v)]"
| "dict_set k v ((k', v') # d) = (if k = k' then (k, v) # d else (k', v') # dict_set k v d)"

text \<open>
  Lines 36 to 51: the loop over \<^verbatim>\<open>object_to_transform.items()\<close>, with \<^verbatim>\<open>out_value\<close> and
  \<^verbatim>\<open>queue\<close> as accumulators.
\<close>

fun to_references ::
  "(string \<times> pdf_value) list \<Rightarrow> (string \<times> pdf_value) list \<Rightarrow> pdf_value list \<Rightarrow> write_context
     \<Rightarrow> (string \<times> pdf_value) list \<times> pdf_value list \<times> write_context" where
  "to_references [] out_value queue ctx = (out_value, queue, ctx)"
| "to_references ((k, v) # kvs) out_value queue ctx =
     (case composite_address v of
        Some a \<Rightarrow>
          (case get_reference a ctx of
             (r, ctx') \<Rightarrow> to_references kvs (dict_set k (Indirect r) out_value) (queue @ [v]) ctx')
      | None \<Rightarrow> to_references kvs (dict_set k v out_value) queue ctx)"

text \<open>
  Lines 67 to 73: the loop over \<^verbatim>\<open>enumerate(out_value.items())\<close>; \<open>root\<close> is
  \<^verbatim>\<open>self.get_root_transformer().transform\<close>, which returns nothing when it runs out of
  fuel.
\<close>

fun write_entries ::
  "(pdf_value \<Rightarrow> write_context \<Rightarrow> write_context option) \<Rightarrow> nat \<Rightarrow> nat \<Rightarrow> (string \<times> pdf_value) list
     \<Rightarrow> write_context \<Rightarrow> write_context option" where
  "write_entries root N i [] ctx = Some ctx"
| "write_entries root N i ((k, v) # kvs) ctx =
     (case root (Name k) ctx of None \<Rightarrow> None | Some ctx1 \<Rightarrow>
     (case root v (destination_write (Raw '' '') ctx1) of None \<Rightarrow> None | Some ctx2 \<Rightarrow>
        write_entries root N (Suc i) kvs
          (if int i \<noteq> int N - 1 then destination_write (Raw '' '') ctx2 else ctx2)))"

text \<open>Lines 65 to 74: the dictionary at the current location.\<close>

definition write_dictionary ::
  "(pdf_value \<Rightarrow> write_context \<Rightarrow> write_context option) \<Rightarrow> (string \<times> pdf_value) list \<Rightarrow> write_context
     \<Rightarrow> write_context option" where
  "write_dictionary root out_value ctx =
     (case write_entries root (length out_value) 0 out_value (destination_write (Raw ''<<'') ctx) of
        None \<Rightarrow> None
      | Some ctx' \<Rightarrow> Some (destination_write (Raw (''>>'' @ [CHR 0x0A])) ctx'))"

text \<open>Lines 80 and 81: \<^verbatim>\<open>for e in queue: self.get_root_transformer().transform(e, context)\<close>.\<close>

fun transform_queue ::
  "(pdf_value \<Rightarrow> write_context \<Rightarrow> write_context option) \<Rightarrow> pdf_value list \<Rightarrow> write_context \<Rightarrow> write_context option" where
  "transform_queue root [] ctx = Some ctx"
| "transform_queue root (e # queue) ctx =
     (case root e ctx of None \<Rightarrow> None | Some ctx' \<Rightarrow> transform_queue root queue ctx')"

text \<open>
  Lines 53 to 81, with the writer of the body (lines 65 to 74) as the parameter
  \<open>write_body\<close>. The result is \<open>False\<close> with the context as it is when the reference is
  already in \<^verbatim>\<open>duplicate_references\<close> (the \<^verbatim>\<open>return\<close> of line 59). The reference
  appended in line 63 is the object that \<^verbatim>\<open>start_object\<close> has just changed, that is the
  back-reference as it is after \<^verbatim>\<open>start_object\<close>.
\<close>

definition emit ::
  "(pdf_value \<Rightarrow> write_context \<Rightarrow> write_context option) \<Rightarrow> nat \<Rightarrow> (write_context \<Rightarrow> write_context option)
     \<Rightarrow> pdf_value list \<Rightarrow> write_context \<Rightarrow> (bool \<times> write_context) option" where
  "emit root a write_body queue ctx1 =
     (let ref = back_reference (objects ctx1 ! a) in
      if (case ref of None \<Rightarrow> False | Some r \<Rightarrow> r \<in> set (duplicate_references ctx1))
      then Some (False, ctx1)
      else
        (let started_object =
               (case ref of None \<Rightarrow> False
                | Some r \<Rightarrow> object_number r \<noteq> None \<and> byte_offset r = None);
             ctx2 = (if started_object then start_object a ctx1 else ctx1);
             ctx3 =
               (case back_reference (objects ctx2 ! a) of
                  None \<Rightarrow> ctx2
                | Some r \<Rightarrow> ctx2\<lparr>duplicate_references := duplicate_references ctx2 @ [r]\<rparr>)
         in case write_body ctx3 of None \<Rightarrow> None | Some ctx4 \<Rightarrow>
            (let ctx5 = (if started_object then end_object a ctx4 else ctx4)
             in case transform_queue root queue ctx5 of
                  None \<Rightarrow> None
                | Some ctx6 \<Rightarrow> Some (True, ctx6))))"

text \<open>
  \<^verbatim>\<open>WriteDictionaryTransformer.transform\<close> for the dictionary at address \<open>a\<close> with the
  items \<open>kvs\<close>. The result is the returned value (\<^verbatim>\<open>out_value\<close>, or \<^verbatim>\<open>None\<close> after the
  \<^verbatim>\<open>return\<close> of line 59) and the context.
\<close>

definition transform ::
  "(pdf_value \<Rightarrow> write_context \<Rightarrow> write_context option) \<Rightarrow> nat \<Rightarrow> (string \<times> pdf_value) list \<Rightarrow> write_context
     \<Rightarrow> ((string \<times> pdf_value) list option \<times> write_context) option" where
  "transform root a kvs ctx =
     (case to_references kvs [] [] ctx of
        (out_value, queue, ctx1) \<Rightarrow>
          (case emit root a (write_dictionary root out_value) queue ctx1 of
             None \<Rightarrow> None
           | Some (emitted, ctx') \<Rightarrow> Some (if emitted then Some out_value else None, ctx')))"

subsection \<open>The other transformers and the root transformer\<close>

text \<open>
  Modelled from the spec: the transformers of arrays, streams and images, which are not
  among the sources. By section 4.6 the composite elements of an array follow the same
  indirect-or-inline rule as the values of a dictionary, a stream is its dictionary
  followed by its data, an image becomes a stream, and every transformer suppresses
  duplicates in the same way. The body is written as one \<open>Body\<close> element that holds the
  object with its composite children replaced by references.
\<close>

fun children :: "content \<Rightarrow> pdf_value list" where
  "children (Dictionary kvs) = map snd kvs"
| "children (List vs) = vs"
| "children (Stream kvs bs) = map snd kvs"
| "children Image = []"

fun with_children :: "content \<Rightarrow> pdf_value list \<Rightarrow> content" where
  "with_children (Dictionary kvs) vs = Dictionary (zip (map fst kvs) vs)"
| "with_children (List us) vs = List vs"
| "with_children (Stream kvs bs) vs = Stream (zip (map fst kvs) vs) bs"
| "with_children Image vs = Image"

fun elements_to_references ::
  "pdf_value list \<Rightarrow> pdf_value list \<Rightarrow> pdf_value list \<Rightarrow> write_context
     \<Rightarrow> pdf_value list \<times> pdf_value list \<times> write_context" where
  "elements_to_references [] out_value queue ctx = (out_value, queue, ctx)"
| "elements_to_references (v # vs) out_value queue ctx =
     (case composite_address v of
        Some a \<Rightarrow>
          (case get_reference a ctx of
             (r, ctx') \<Rightarrow> elements_to_references vs (out_value @ [Indirect r]) (queue @ [v]) ctx')
      | None \<Rightarrow> elements_to_references vs (out_value @ [v]) queue ctx)"

definition transform_other ::
  "(pdf_value \<Rightarrow> write_context \<Rightarrow> write_context option) \<Rightarrow> nat \<Rightarrow> content \<Rightarrow> write_context \<Rightarrow> write_context option" where
  "transform_other root a c ctx =
     (case elements_to_references (children c) [] [] ctx of
        (out_value, queue, ctx1) \<Rightarrow>
          map_option snd
            (emit root a (\<lambda>ctx'. Some (destination_write (Body (with_children c out_value)) ctx')) queue ctx1))"

text \<open>
  Modelled from the spec: the root transformer (section 4.6), which dispatches on the
  kind of the value: a scalar is written as its text, a reference as \<^verbatim>\<open>N G R\<close>, a
  dictionary goes to \<^verbatim>\<open>WriteDictionaryTransformer.transform\<close>, the other composites to
  their transformers. The first argument is fuel: every dispatch takes one unit, and
  without fuel there is no result.
\<close>

primrec root_transform :: "nat \<Rightarrow> pdf_value \<Rightarrow> write_context \<Rightarrow> write_context option" where
  "root_transform 0 = (\<lambda>v ctx. None)"
| "root_transform (Suc n) = (\<lambda>v ctx.
     (case v of
        Composite a \<Rightarrow>
          (case content (objects ctx ! a) of
             Dictionary kvs \<Rightarrow> map_option snd (transform (root_transform n) a kvs ctx)
           | List vs \<Rightarrow> transform_other (root_transform n) a (List vs) ctx
           | Stream kvs bs \<Rightarrow> transform_other (root_transform n) a (Stream kvs bs) ctx
           | Image \<Rightarrow> transform_other (root_transform n) a Image ctx)
      | Indirect r \<Rightarrow> Some (destination_write (IndirectRef r) ctx)
      | _ \<Rightarrow> Some (destination_write (Leaf v) ctx)))"

text \<open>A write pass over the object at address \<open>a\<close>, from a context created for the pass.\<close>

definition new_context :: "pdf_node list \<Rightarrow> int \<Rightarrow> write_context" where
  "new_context objs n =
     \<lparr>objects = objs, destination = [], duplicate_references = [], next_object_number = n\<rparr>"

text \<open>
  A relation between the context before and the context after that every result of
  \<open>root\<close> satisfies.
\<close>

definition results_in ::
  "(write_context \<Rightarrow> write_context \<Rightarrow> bool) \<Rightarrow> (pdf_value \<Rightarrow> write_context \<Rightarrow> write_context option) \<Rightarrow> bool" where
  "results_in R root \<longleftrightarrow> (\<forall>v ctx ctx'. root v ctx = Some ctx' \<longrightarrow> R ctx ctx')"

text \<open>
  A relation that holds across every elementary change of the context: a write to the
  destination, \<^verbatim>\<open>get_reference\<close>, \<^verbatim>\<open>start_object\<close>, and an append to
  \<^verbatim>\<open>duplicate_references\<close>; and that is reflexive and transitive.
\<close>

definition step_closed :: "(write_context \<Rightarrow> write_context \<Rightarrow> bool) \<Rightarrow> bool" where
  "step_closed R \<longleftrightarrow>
     (\<forall>c. R c c) \<and>
     (\<forall>c1 c2 c3. R c1 c2 \<longrightarrow> R c2 c3 \<longrightarrow> R c1 c3) \<and>
     (\<forall>ch c. R c (destination_write ch c)) \<and>
     (\<forall>a c. R c (snd (get_reference a c))) \<and>
     (\<forall>a c. R c (start_object a c)) \<and>
     (\<forall>r c. R c (c\<lparr>duplicate_references := duplicate_references c @ [r]\<rparr>))"

text \<open>
  Two such relations: the objects hold what they held; and the destination,
  \<^verbatim>\<open>duplicate_references\<close> and the allocator have only grown, over the same objects.
\<close>

definition same_contents :: "write_context \<Rightarrow> write_context \<Rightarrow> bool" where
  "same_contents c c' \<longleftrightarrow> map content (objects c') = map content (objects c)"

definition extends :: "write_context \<Rightarrow> write_context \<Rightarrow> bool" where
  "extends c c' \<longleftrightarrow>
     (\<exists>more. destination c' = destination c @ more) \<and>
     (\<exists>more. duplicate_references c' = duplicate_references c @ more) \<and>
     next_object_number c \<le> next_object_number c' \<and>
     length (objects c') = length (objects c)"

text \<open>The object at \<open>b\<close> carries a back-reference that has an object number.\<close>

definition numbered :: "write_context \<Rightarrow> nat \<Rightarrow> bool" where
  "numbered ctx b \<longleftrightarrow>
     (case back_reference (objects ctx ! b) of None \<Rightarrow> False | Some r \<Rightarrow> object_number r \<noteq> None)"

text \<open>
  The value that stands for \<open>v\<close> in \<^verbatim>\<open>out_value\<close>, read off the context after the loop:
  the back-reference of a composite, the value itself otherwise.
\<close>

definition replaced :: "write_context \<Rightarrow> pdf_value \<Rightarrow> pdf_value" where
  "replaced ctx v =
     (case composite_address v of
        None \<Rightarrow> v
      | Some b \<Rightarrow> Indirect (the (back_reference (objects ctx ! b))))"

text \<open>The elements that the body of a dictionary adds to the destination.\<close>

fun value_chunk :: "pdf_value \<Rightarrow> chunk" where
  "value_chunk (Indirect r) = IndirectRef r"
| "value_chunk v = Leaf v"

fun entries_chunks :: "(string \<times> pdf_value) list \<Rightarrow> chunk list" where
  "entries_chunks [] = []"
| "entries_chunks [(k, v)] = [Leaf (Name k), Raw '' '', value_chunk v]"
| "entries_chunks ((k, v) # kv # kvs) =
     [Leaf (Name k), Raw '' '', value_chunk v, Raw '' ''] @ entries_chunks (kv # kvs)"

definition dictionary_chunks :: "(string \<times> pdf_value) list \<Rightarrow> chunk list" where
  "dictionary_chunks out_value =
     Raw ''<<'' # entries_chunks out_value @ [Raw (''>>'' @ [CHR 0x0A])]"

text \<open>
  What the destination holds, read by object number. \<open>header_of N ch\<close>: the element \<open>ch\<close>
  is a line \<^verbatim>\<open>N G obj\<close>, and \<open>object_headers N out\<close> is the number of these lines in
  \<open>out\<close>. \<open>object_bodies N opened out\<close> is the number of bodies \<^verbatim>\<open>N G obj ... endobj\<close>
  in \<open>out\<close>: the lines \<^verbatim>\<open>N G obj\<close> that are followed by a line \<^verbatim>\<open>endobj\<close> with no
  line \<^verbatim>\<open>M G obj\<close> between the two; \<open>opened\<close> tells that the text before \<open>out\<close> ends
  inside an object with the number \<open>N\<close>. \<open>inside_object opened out\<close> tells that the text
  ends after a line \<^verbatim>\<open>M G obj\<close> that no line \<^verbatim>\<open>endobj\<close> follows. An element is
  \<open>plain\<close> when it is neither of the two lines.
\<close>

fun header_of :: "int \<Rightarrow> chunk \<Rightarrow> bool" where
  "header_of N (StartObject r) = (object_number r = Some N)"
| "header_of N ch = False"

definition object_headers :: "int \<Rightarrow> chunk list \<Rightarrow> nat" where
  "object_headers N out = length (filter (header_of N) out)"

fun object_bodies :: "int \<Rightarrow> bool \<Rightarrow> chunk list \<Rightarrow> nat" where
  "object_bodies N opened [] = 0"
| "object_bodies N opened (StartObject r # out) = object_bodies N (object_number r = Some N) out"
| "object_bodies N opened (EndObject # out) = (if opened then 1 else 0) + object_bodies N False out"
| "object_bodies N opened (ch # out) = object_bodies N opened out"

fun inside_object :: "bool \<Rightarrow> chunk list \<Rightarrow> bool" where
  "inside_object opened [] = opened"
| "inside_object opened (StartObject r # out) = inside_object True out"
| "inside_object opened (EndObject # out) = inside_object False out"
| "inside_object opened (ch # out) = inside_object opened out"

fun plain :: "chunk \<Rightarrow> bool" where
  "plain (StartObject r) = False"
| "plain EndObject = False"
| "plain ch = True"

text \<open>
  The text ends outside of every object, and every line \<^verbatim>\<open>N G obj\<close> in it has its
  \<^verbatim>\<open>endobj\<close>.
\<close>

definition text_closed :: "chunk list \<Rightarrow> bool" where
  "text_closed out \<longleftrightarrow>
     \<not> inside_object False out \<and> (\<forall>N. object_bodies N False out = object_headers N out)"

text \<open>
  From \<open>c\<close> to \<open>c'\<close> nothing has happened but calls of \<^verbatim>\<open>get_reference\<close>: nothing was
  written, and a back-reference is as it was or is a new reference with a number that was
  unused in \<open>c\<close>, given to an object that had none.
\<close>

definition assigns_only :: "write_context \<Rightarrow> write_context \<Rightarrow> bool" where
  "assigns_only c c' \<longleftrightarrow>
     destination c' = destination c \<and>
     duplicate_references c' = duplicate_references c \<and>
     length (objects c') = length (objects c) \<and>
     next_object_number c \<le> next_object_number c' \<and>
     (\<forall>b. back_reference (objects c' ! b) = back_reference (objects c ! b) \<or>
          (\<not> numbered c b \<and>
           (\<exists>m. next_object_number c \<le> m \<and> m < next_object_number c' \<and>
                back_reference (objects c' ! b) = Some (new_reference m))))"

text \<open>
  Example stores: a dictionary that holds itself under \<^verbatim>\<open>/Self\<close>, and a catalog with a
  dictionary that already has the object number 9 and an array that has none.
\<close>

definition self_dictionary :: "pdf_node list" where
  "self_dictionary =
     [\<lparr>content = Dictionary [(''Type'', Name ''Catalog''), (''Self'', Composite 0)],
       back_reference = None\<rparr>]"



definition self_items :: "(string \<times> pdf_value) list" where
  "self_items = [(''Type'', Name ''Catalog''), (''Self'', Composite 0)]"

text \<open>
  The state of a pass between two emissions; \<open>L\<close> is the set of the object numbers whose
  objects had a byte offset before the pass, that is the objects that line 60 does not
  start. Every back-reference has an object number below the allocator; two objects
  never share an object number; a back-reference has a byte offset exactly when it is in
  \<^verbatim>\<open>duplicate_references\<close> or its number is in \<open>L\<close>; every number of \<open>L\<close> is the
  number of an object; every element of \<^verbatim>\<open>duplicate_references\<close> is the back-reference of an
  object; no element occurs twice; and the destination holds one line \<^verbatim>\<open>N G obj\<close> for
  each object number \<open>N\<close> outside \<open>L\<close> that an element of \<^verbatim>\<open>duplicate_references\<close>
  carries, and none for any other number.
\<close>

definition refs_numbered :: "write_context \<Rightarrow> bool" where
  "refs_numbered c \<longleftrightarrow>
     (\<forall>b<length (objects c). \<forall>r. back_reference (objects c ! b) = Some r \<longrightarrow>
        (\<exists>m. object_number r = Some m \<and> m < next_object_number c))"

definition refs_distinct :: "write_context \<Rightarrow> bool" where
  "refs_distinct c \<longleftrightarrow>
     (\<forall>b<length (objects c). \<forall>b'<length (objects c). \<forall>r r'.
        back_reference (objects c ! b) = Some r \<and> back_reference (objects c ! b') = Some r' \<and>
        object_number r = object_number r' \<longrightarrow> b = b')"

definition located_iff_listed :: "int set \<Rightarrow> write_context \<Rightarrow> bool" where
  "located_iff_listed L c \<longleftrightarrow>
     (\<forall>b<length (objects c). \<forall>r. back_reference (objects c ! b) = Some r \<longrightarrow>
        (byte_offset r \<noteq> None) =
        (r \<in> set (duplicate_references c) \<or> (\<exists>N\<in>L. object_number r = Some N)))"

definition located_owned :: "int set \<Rightarrow> write_context \<Rightarrow> bool" where
  "located_owned L c \<longleftrightarrow>
     (\<forall>N\<in>L. \<exists>b<length (objects c). \<exists>r.
        back_reference (objects c ! b) = Some r \<and> object_number r = Some N)"

definition listed_owned :: "write_context \<Rightarrow> bool" where
  "listed_owned c \<longleftrightarrow>
     (\<forall>r\<in>set (duplicate_references c).
        \<exists>b<length (objects c). back_reference (objects c ! b) = Some r)"

definition headers_once :: "int set \<Rightarrow> write_context \<Rightarrow> bool" where
  "headers_once L c \<longleftrightarrow>
     distinct (duplicate_references c) \<and>
     (\<forall>N. object_headers N (destination c) =
        (if N \<notin> L \<and> (\<exists>r\<in>set (duplicate_references c). object_number r = Some N)
         then 1 else 0))"

definition pass_inv :: "int set \<Rightarrow> write_context \<Rightarrow> bool" where
  "pass_inv L c \<longleftrightarrow>
     refs_numbered c \<and> refs_distinct c \<and> located_iff_listed L c \<and> located_owned L c \<and>
     listed_owned c \<and> headers_once L c"

text \<open>Every composite child of an object of the store is an object of the store.\<close>

definition closed :: "write_context \<Rightarrow> bool" where
  "closed c \<longleftrightarrow>
     (\<forall>b<length (objects c). \<forall>a. Composite a \<in> set (children (content (objects c ! b))) \<longrightarrow>
        a < length (objects c))"

text \<open>
  The root transformer keeps the invariant, and leaves the text closed when it was.
\<close>

definition keeps_inv :: "int set \<Rightarrow> (pdf_value \<Rightarrow> write_context \<Rightarrow> write_context option) \<Rightarrow> bool" where
  "keeps_inv L root \<longleftrightarrow>
     (\<forall>v c c'. pass_inv L c \<longrightarrow> text_closed (destination c) \<longrightarrow> closed c \<longrightarrow>
        (\<forall>b. v = Composite b \<longrightarrow> b < length (objects c)) \<longrightarrow>
        root v c = Some c' \<longrightarrow> pass_inv L c' \<and> text_closed (destination c'))"

text \<open>
  A store whose only object is an empty dictionary that was read from a file: its
  back-reference has the object number 5 and the byte offset 100.
\<close>

definition located_dictionary :: "pdf_node list" where
  "located_dictionary =
     [\<lparr>content = Dictionary [],
       back_reference = Some ((new_reference 5)\<lparr>byte_offset := Some 100\<rparr>)\<rparr>]"

text \<open>
  The object at \<open>b\<close> has not been emitted: it has no back-reference, or its back-reference
  is not in \<^verbatim>\<open>duplicate_references\<close>. The number of such objects bounds the fuel that a
  pass needs.
\<close>

definition unlisted :: "write_context \<Rightarrow> nat \<Rightarrow> bool" where
  "unlisted c b \<longleftrightarrow>
     (case back_reference (objects c ! b) of
        None \<Rightarrow> True
      | Some r \<Rightarrow> r \<notin> set (duplicate_references c))"

definition pending :: "write_context \<Rightarrow> nat" where
  "pending c = card {b. b < length (objects c) \<and> unlisted c b}"

text \<open>No object loses its back-reference.\<close>

definition keeps_refs :: "write_context \<Rightarrow> write_context \<Rightarrow> bool" where
  "keeps_refs c c' \<longleftrightarrow>
     (\<forall>b. back_reference (objects c ! b) \<noteq> None \<longrightarrow> back_reference (objects c' ! b) \<noteq> None)"

text \<open>
  A value that the root transformer can be given in the middle of a pass: a composite is
  an object of the store that has a back-reference, or that will get one in its own first
  loop because it is one of its own children.
\<close>

definition ready :: "write_context \<Rightarrow> pdf_value \<Rightarrow> bool" where
  "ready c v \<longleftrightarrow>
     (\<forall>a. v = Composite a \<longrightarrow>
        a < length (objects c) \<and>
        (back_reference (objects c ! a) \<noteq> None \<or>
         Composite a \<in> set (children (content (objects c ! a)))))"

text \<open>With \<open>k\<close> objects to emit at most, \<open>Suc k\<close> units of fuel are enough.\<close>

definition finishes :: "int set \<Rightarrow> nat \<Rightarrow> bool" where
  "finishes L k \<longleftrightarrow>
     (\<forall>v c. pass_inv L c \<longrightarrow> text_closed (destination c) \<longrightarrow> closed c \<longrightarrow>
        pending c \<le> k \<longrightarrow> ready c v \<longrightarrow>
        (\<exists>c'. root_transform (Suc k) v c = Some c' \<and> pending c' \<le> pending c))"

text \<open>A back-reference that has an object number keeps it.\<close>

definition keeps_numbers :: "write_context \<Rightarrow> write_context \<Rightarrow> bool" where
  "keeps_numbers c c' \<longleftrightarrow>
     (\<forall>b r. back_reference (objects c ! b) = Some r \<and> object_number r \<noteq> None \<longrightarrow>
        (\<exists>r'. back_reference (objects c' ! b) = Some r' \<and> object_number r' = object_number r))"

text \<open>
  The object at \<open>b\<close> has a back-reference with a byte offset: line 60 does not start it.
\<close>

definition located :: "write_context \<Rightarrow> nat \<Rightarrow> bool" where
  "located c b \<longleftrightarrow>
     (case back_reference (objects c ! b) of None \<Rightarrow> False | Some r \<Rightarrow> byte_offset r \<noteq> None)"

text \<open>
  A state in which \<^verbatim>\<open>transform\<close> can be called in the course of a pass: the store is
  closed, the text written so far is closed, and the invariant holds for some set of
  object numbers. A new context is such a state when the back-references of its objects
  have object numbers below the allocator, each its own.
\<close>

definition pass_state :: "write_context \<Rightarrow> bool" where
  "pass_state c \<longleftrightarrow> closed c \<and> text_closed (destination c) \<and> (\<exists>L. pass_inv L c)"


definition self_and_located_child :: "pdf_node list" where
  "self_and_located_child =
     [\<lparr>content = Dictionary [(''Self'', Composite 0), (''Child'', Composite 1)],
       back_reference = None\<rparr>,
      \<lparr>content = Dictionary [],
       back_reference = Some ((new_reference 5)\<lparr>byte_offset := Some 100\<rparr>)\<rparr>]"


section \<open>Properties of the reader\<close>

subsection \<open>Fields and entries\<close>

lemma read_field_bptr:
  "read_field bs j v bptr = Inr (x, b') \<Longrightarrow> b' = bptr + j"
proof (induction j arbitrary: v bptr)
  case 0
  then show ?case by simp
next
  case (Suc j)
  from Suc.prems have "bptr < length bs" by (simp split: if_splits)
  with Suc.prems have
    "read_field bs j (push_bit 8 v + uint (bs ! bptr AND 0xFF)) (Suc bptr) = Inr (x, b')"
    by simp
  from Suc.IH[OF this] show ?case by simp
qed

lemma read_entry_bptr:
  assumes "read_entry widths bs bptr = Inr (t, f2, f3, b')"
  shows "b' = bptr + entry_width widths"
  using assms
  by (auto simp: read_entry_def width_at_def entry_width_def
      split: if_splits sum.splits prod.splits dest!: read_field_bptr)

lemma make_reference_type:
  "make_reference doc on t f2 f3 = Inr r \<Longrightarrow> t = 0 \<or> t = 1 \<or> t = 2"
  by (auto simp: make_reference_def split: if_splits)

lemma make_reference_bad:
  "t \<noteq> 0 \<Longrightarrow> t \<noteq> 1 \<Longrightarrow> t \<noteq> 2 \<Longrightarrow> make_reference doc on t f2 f3 = Inl AssertionError"
  by (simp add: make_reference_def)

text \<open>
  A subsection loop that returns has decoded \<open>n\<close> entries, the \<open>k\<close>-th of them from
  position \<open>bptr + k * entry_width widths\<close>, and each of type 0, 1 or 2.
\<close>

lemma read_entries_types:
  "read_entries doc widths bs on n bptr refs = Inr refs' \<Longrightarrow> k < n \<Longrightarrow>
   \<exists>t f2 f3 b'. read_entry widths bs (bptr + k * entry_width widths) = Inr (t, f2, f3, b')
      \<and> (t = 0 \<or> t = 1 \<or> t = 2)"
proof (induction n arbitrary: on bptr refs k)
  case 0
  then show ?case by simp
next
  case (Suc n)
  from Suc.prems(1) obtain t f2 f3 b' r where
    e: "read_entry widths bs bptr = Inr (t, f2, f3, b')" and
    m: "make_reference doc on t f2 f3 = Inr r" and
    rest: "read_entries doc widths bs (on + 1) n b' (append_reference refs on r) = Inr refs'"
    by (auto split: sum.splits prod.splits)
  have b': "b' = bptr + entry_width widths" using e by (rule read_entry_bptr)
  show ?case
  proof (cases k)
    case 0
    with e m show ?thesis by (auto dest: make_reference_type)
  next
    case (Suc k')
    with Suc.prems(2) have "k' < n" by simp
    from Suc.IH[OF rest this] show ?thesis
      by (simp add: b' Suc add.assoc add.commute add.left_commute)
  qed
qed

subsection \<open>Merging and the invariant of the list\<close>

lemma find_None_iff_on:
  "existing_indirect_ref refs on = None \<longleftrightarrow> Some on \<notin> object_number ` set refs"
  by (force simp: existing_indirect_ref_def find_None_iff)



lemma update_first_map:
  "(\<And>x. g (f x) = g x) \<Longrightarrow> map g (update_first P f xs) = map g xs"
  by (induction xs) auto

lemma update_first_length [simp]: "length (update_first P f xs) = length xs"
  by (induction xs) auto

lemma update_first_set:
  "y \<in> set (update_first P f xs) \<Longrightarrow> y \<in> set xs \<or> (\<exists>x\<in>set xs. P x \<and> y = f x)"
  by (induction xs) (auto split: if_splits)

lemma update_first_hd:
  "xs \<noteq> [] \<Longrightarrow> \<not> P (hd xs) \<Longrightarrow> hd (update_first P f xs) = hd xs"
  by (cases xs) auto



lemma existing_in_set:
  "existing_indirect_ref refs on = Some e \<Longrightarrow> e \<in> set refs \<and> object_number e = Some on"
  by (auto simp: existing_indirect_ref_def find_Some_iff)

lemma append_reference_cases:
  assumes "\<forall>x\<in>set refs. document x \<noteq> None"
  shows "append_reference refs on r =
    (case existing_indirect_ref refs on of
       None \<Rightarrow> refs @ [r]
     | Some e \<Rightarrow>
         if is_in_use e \<and> generation_number e = generation_number r
         then update_first (\<lambda>x. object_number x = Some on)
                (\<lambda>e. e\<lparr>index_in_parent_stream := index_in_parent_stream r,
                       parent_stream_object_number := parent_stream_object_number r\<rparr>) refs
         else refs)"
  using assms
  by (auto simp: append_reference_def ref_is_first_encountered_def ref_is_in_reading_state_def
      dest!: existing_in_set split: option.splits)


lemma make_reference_fields:
  "make_reference doc on t f2 f3 = Inr r \<Longrightarrow> object_number r = Some on \<and> document r = doc"
  by (auto simp: make_reference_def split: if_splits)

lemma existing_hd:
  "refs \<noteq> [] \<Longrightarrow> object_number (hd refs) = Some on \<Longrightarrow> existing_indirect_ref refs on = Some (hd refs)"
  by (cases refs) (auto simp: existing_indirect_ref_def)

lemma refs_inv_append_reference:
  assumes inv: "refs_inv (Some d) refs"
    and r: "object_number r = Some on" "document r = Some d"
  shows "refs_inv (Some d) (append_reference refs on r)"
proof -
  from inv have docs: "\<forall>x\<in>set refs. document x \<noteq> None"
    by (auto simp: refs_inv_def list_all_iff)
  note ac = append_reference_cases[OF docs, of on r]
  show ?thesis
  proof (cases "existing_indirect_ref refs on")
    case None
    then have "Some on \<notin> object_number ` set refs" by (simp add: find_None_iff_on)
    with inv r None show ?thesis
      by (auto simp: ac refs_inv_def list_all_iff)
  next
    case (Some e)
    show ?thesis
    proof (cases "is_in_use e \<and> generation_number e = generation_number r")
      case False
      with Some inv show ?thesis by (auto simp: ac)
    next
      case True
      have nothd: "object_number (hd refs) \<noteq> Some on"
      proof
        assume "object_number (hd refs) = Some on"
        with inv have "existing_indirect_ref refs on = Some (hd refs)"
          by (intro existing_hd) (auto simp: refs_inv_def)
        with Some have "e = free_list_head (Some d)" using inv by (simp add: refs_inv_def)
        with True show False by (simp add: free_list_head_def)
      qed
      let ?f = "\<lambda>e. e\<lparr>index_in_parent_stream := index_in_parent_stream r,
                       parent_stream_object_number := parent_stream_object_number r\<rparr>"
      let ?u = "update_first (\<lambda>x. object_number x = Some on) ?f refs"
      have eq: "append_reference refs on r = ?u" using Some True by (simp add: ac)
      have m1: "map object_number ?u = map object_number refs"
        by (rule update_first_map) simp
      have m2: "map document ?u = map document refs"
        by (rule update_first_map) simp
      have ne: "?u \<noteq> []" using inv m1 by (auto simp: refs_inv_def)
      have h: "hd ?u = hd refs" using inv nothd by (intro update_first_hd) (auto simp: refs_inv_def)
      have d: "list_all (\<lambda>r. document r = Some d) ?u"
      proof -
        have "list_all (\<lambda>x. x = Some d) (map document refs)"
          using inv by (simp add: refs_inv_def list_all_iff)
        then have "list_all (\<lambda>x. x = Some d) (map document ?u)" by (simp only: m2)
        then show ?thesis by (simp add: list_all_iff)
      qed
      show ?thesis
        unfolding eq refs_inv_def using ne h d m1 inv by (simp add: refs_inv_def)
    qed
  qed
qed

lemma refs_inv_read_entries:
  "refs_inv (Some d) refs \<Longrightarrow> read_entries (Some d) widths bs on n bptr refs = Inr refs' \<Longrightarrow>
   refs_inv (Some d) refs'"
proof (induction n arbitrary: on bptr refs)
  case 0
  then show ?case by simp
next
  case (Suc n)
  from Suc.prems(2) obtain t f2 f3 b' r where
    m: "make_reference (Some d) on t f2 f3 = Inr r" and
    rest: "read_entries (Some d) widths bs (on + 1) n b' (append_reference refs on r) = Inr refs'"
    by (auto split: sum.splits prod.splits)
  from m have "object_number r = Some on" "document r = Some d"
    by (auto dest: make_reference_fields)
  from refs_inv_append_reference[OF Suc.prems(1) this] rest show ?case
    by (rule Suc.IH)
qed

lemma refs_inv_read_ranges:
  "refs_inv (Some d) refs \<Longrightarrow> read_ranges (Some d) widths bs index refs = Inr refs' \<Longrightarrow>
   refs_inv (Some d) refs'"
proof (induction "Some d" widths bs index refs rule: read_ranges.induct)
  case (1 widths bs refs)
  then show ?case by simp
next
  case (2 widths bs x refs)
  then show ?case by (simp split: sum.splits)
next
  case (3 widths bs x y index refs)
  from "3.prems"(2) obtain start len refs1 where
    x: "int_of x = Inr start" and y: "int_of y = Inr len" and
    e: "read_entries (Some d) widths bs start (nat len) 0 refs = Inr refs1" and
    rest: "read_ranges (Some d) widths bs index refs1 = Inr refs'"
    by (auto split: sum.splits)
  from refs_inv_read_entries[OF "3.prems"(1) e] have "refs_inv (Some d) refs1" .
  from "3.hyps"[OF x y e this rest] show ?case .
qed

lemma refs_inv_read:
  assumes "read d xref = Inr refs"
  shows "refs_inv (Some d) refs"
proof -
  from assms obtain widths index where
    "read_ranges (Some d) widths (DecodedBytes xref) index [free_list_head (Some d)] = Inr refs"
    by (auto simp: read_def get_root_def Let_def split: option.splits if_splits sum.splits)
  moreover have "refs_inv (Some d) [free_list_head (Some d)]"
    by (simp add: refs_inv_def free_list_head_def)
  ultimately show ?thesis by (rule refs_inv_read_ranges[rotated])
qed

lemma one_head:
  assumes "refs_inv doc refs"
  shows "length (filter (\<lambda>r. object_number r = Some 0 \<and> generation_number r = 65535 \<and> \<not> is_in_use r) refs) = 1"
proof -
  from assms obtain x xs where refs: "refs = x # xs" and x: "x = free_list_head doc"
    and dist: "distinct (map object_number (x # xs))"
    by (cases refs) (auto simp: refs_inv_def)
  from dist x have "\<forall>r\<in>set xs. object_number r \<noteq> Some 0"
    by (force simp: free_list_head_def)
  then have "filter (\<lambda>r. object_number r = Some 0 \<and> generation_number r = 65535 \<and> \<not> is_in_use r) xs = []"
    by (auto simp: filter_empty_conv)
  then show ?thesis by (simp add: refs x free_list_head_def)
qed

subsection \<open>Locations\<close>





subsection \<open>Widths of zero, byte offsets\<close>

lemma byte_and_ff: "(b :: 8 word) AND 0xFF = b"
proof -
  have "(0xFF :: 8 word) = - 1" by simp
  then show ?thesis by (simp only: word_bw_comms word_log_esimps)
qed

lemma read_entry_type_only:
  "bptr < length bs \<Longrightarrow> read_entry [1, 0, 0] bs bptr = Inr (uint (bs ! bptr), 0, 0, Suc bptr)"
  by (simp add: read_entry_def width_at_def byte_and_ff)

lemma read_entries_type_only:
  "bptr + n \<le> length bs \<Longrightarrow> \<forall>k<n. bs ! (bptr + k) \<in> {0, 1, 2} \<Longrightarrow>
   \<exists>refs'. read_entries doc [1, 0, 0] bs on n bptr refs = Inr refs'"
proof (induction n arbitrary: on bptr refs)
  case 0
  then show ?case by simp
next
  case (Suc n)
  from Suc.prems(1) have lt: "bptr < length bs" by simp
  from Suc.prems(2) have "bs ! (bptr + 0) \<in> {0, 1, 2}" by blast
  then have t: "uint (bs ! bptr) = 0 \<or> uint (bs ! bptr) = 1 \<or> uint (bs ! bptr) = 2"
    by auto
  then obtain r where m: "make_reference doc on (uint (bs ! bptr)) 0 0 = Inr r"
    by (auto simp: make_reference_def)
  have "\<forall>k<n. bs ! (Suc bptr + k) \<in> {0, 1, 2}"
  proof (intro allI impI)
    fix k assume "k < n"
    then have "Suc k < Suc n" by simp
    with Suc.prems(2) have "bs ! (bptr + Suc k) \<in> {0, 1, 2}" by blast
    then show "bs ! (Suc bptr + k) \<in> {0, 1, 2}" by simp
  qed
  moreover from Suc.prems(1) have "Suc bptr + n \<le> length bs" by simp
  ultimately obtain refs' where
    "read_entries doc [1, 0, 0] bs (on + 1) n (Suc bptr) (append_reference refs on r) = Inr refs'"
    using Suc.IH by blast
  then show ?case by (simp add: read_entry_type_only[OF lt] m)
qed



section \<open>The claims about the reader\<close>

text \<open>
  C1, as the specification words it: an entry whose type is outside 0, 1, 2 is ignored, no
  error is raised and reading goes on. The source asserts \<^verbatim>\<open>type in [0, 1, 2]\<close>
  (line 137) instead: on \<open>stream_bad_type\<close>, whose first entry has type 3, \<^verbatim>\<open>read\<close>
  ends with \<open>AssertionError\<close> and returns no list.
\<close>

theorem bad_type_counterexample:
  "read 7 stream_bad_type = Inl AssertionError"
  by code_simp

text \<open>
  C1, amended: an entry whose type is outside 0, 1, 2 makes the loop over a subsection end
  with \<open>AssertionError\<close>, whatever the list holds and however many entries remain; a
  loop that returns a list has therefore read only entries of type 0, 1 or 2.
\<close>

theorem bad_type_raises:
  "(read_entry widths bs bptr = Inr (t, f2, f3, bptr') \<and> t \<notin> {0, 1, 2} \<longrightarrow>
      read_entries doc widths bs on (Suc n) bptr refs = Inl AssertionError) \<and>
   (read_entries doc widths bs on m bptr refs = Inr refs' \<and> k < m \<longrightarrow>
      (\<exists>t f2 f3 b'.
         read_entry widths bs (bptr + k * entry_width widths) = Inr (t, f2, f3, b') \<and>
         t \<in> {0, 1, 2}))"
proof (intro conjI impI)
  assume "read_entry widths bs bptr = Inr (t, f2, f3, bptr') \<and> t \<notin> {0, 1, 2}"
  then show "read_entries doc widths bs on (Suc n) bptr refs = Inl AssertionError"
    by (simp add: make_reference_bad)
next
  assume "read_entries doc widths bs on m bptr refs = Inr refs' \<and> k < m"
  then have "\<exists>t f2 f3 b'.
      read_entry widths bs (bptr + k * entry_width widths) = Inr (t, f2, f3, b') \<and>
      (t = 0 \<or> t = 1 \<or> t = 2)"
    by (intro read_entries_types) auto
  then show "\<exists>t f2 f3 b'.
      read_entry widths bs (bptr + k * entry_width widths) = Inr (t, f2, f3, b') \<and>
      t \<in> {0, 1, 2}" by simp
qed

theorem bad_type_raises_witness:
  "read_entry [1, 1, 1] [3, 0, 0, 1, 10, 0] 0 = Inr (3, 0, 0, 3) \<and>
   read_entries (Some 7) [1, 1, 1] [3, 0, 0, 1, 10, 0] 0 (Suc 1) 0 [free_list_head (Some 7)]
     = Inl AssertionError"
proof -
  have e: "read_entry [1, 1, 1] [3, 0, 0, 1, 10, 0] 0 = Inr (3, 0, 0, 3)" by code_simp
  have "(3::int) \<notin> {0, 1, 2}" by simp
  with e bad_type_raises[of "[1, 1, 1]" "[3, 0, 0, 1, 10, 0]" 0 3 0 0 3 "Some 7" 0 1
      "[free_list_head (Some 7)]" 0 "[]" 0]
  have "read_entries (Some 7) [1, 1, 1] [3, 0, 0, 1, 10, 0] 0 (Suc 1) 0 [free_list_head (Some 7)]
     = Inl AssertionError" by blast
  then show ?thesis by (rule conjI[OF e])
qed

text \<open>
  C2: entry number \<open>m\<close>, counted across the subsections of \<^verbatim>\<open>/Index\<close>, is to be read
  from the bytes \<open>m * (w1 + w2 + w3)\<close> onwards. The source sets \<^verbatim>\<open>bptr = 0\<close> at the
  start of every subsection (line 110), so the second subsection reads the bytes of the
  first again: on \<open>stream_two_subsections\<close> object 5 gets the byte offset 10 of entry 0,
  not the 20 that entry 1 holds.
\<close>

theorem second_subsection_rereads_first_bytes:
  "read 7 stream_two_subsections =
     Inr [free_list_head (Some 7),
          \<lparr>object_number = Some 3, generation_number = 0, parent_stream_object_number = None,
           index_in_parent_stream = None, byte_offset = Some 10, is_in_use = True,
           document = Some 7\<rparr>,
          \<lparr>object_number = Some 5, generation_number = 0, parent_stream_object_number = None,
           index_in_parent_stream = None, byte_offset = Some 10, is_in_use = True,
           document = Some 7\<rparr>]"
  by code_simp







text \<open>
  C8: a type field of width 0 gives type 1, a second or third field of width 0 gives 0
  and moves \<open>bptr\<close> by nothing; with \<^verbatim>\<open>/W [1 0 0]\<close> an entry is its type byte with
  both fields 0, and a stream without \<^verbatim>\<open>/Index\<close> whose first \<^verbatim>\<open>Size\<close> bytes are
  types 0, 1 or 2 is read without error.
\<close>

theorem zero_width_defaults:
  "(w1 \<le> 0 \<and> read_entry (w1 # w2 # w3 # ws) bs bptr = Inr (t, f2, f3, b') \<longrightarrow> t = 1) \<and>
   (read_entry (v1 # 0 # v3 # vs) bs bptr = Inr (t', g2, g3, c') \<longrightarrow> g2 = 0) \<and>
   (read_entry (u1 # u2 # 0 # us) bs bptr = Inr (t'', h2, h3, d') \<longrightarrow> h3 = 0) \<and>
   (bptr < length bs \<longrightarrow>
      read_entry [1, 0, 0] bs bptr = Inr (uint (bs ! bptr), 0, 0, Suc bptr)) \<and>
   (W xref = Some [Decimal 1, Decimal 0, Decimal 0] \<and> Size xref = Some (Decimal n) \<and>
    Index xref = None \<and> nat n \<le> length (DecodedBytes xref) \<and>
    (\<forall>k<nat n. DecodedBytes xref ! k \<in> {0, 1, 2}) \<longrightarrow>
      (\<exists>refs. read d xref = Inr refs))"
proof (intro conjI impI)
  assume "w1 \<le> 0 \<and> read_entry (w1 # w2 # w3 # ws) bs bptr = Inr (t, f2, f3, b')"
  then show "t = 1"
    by (auto simp: read_entry_def width_at_def split: sum.splits prod.splits)
next
  assume "read_entry (v1 # 0 # v3 # vs) bs bptr = Inr (t', g2, g3, c')"
  then show "g2 = 0"
    by (auto simp: read_entry_def width_at_def split: sum.splits prod.splits if_splits)
next
  assume "read_entry (u1 # u2 # 0 # us) bs bptr = Inr (t'', h2, h3, d')"
  then show "h3 = 0"
    by (auto simp: read_entry_def width_at_def split: sum.splits prod.splits if_splits)
next
  assume "bptr < length bs"
  then show "read_entry [1, 0, 0] bs bptr = Inr (uint (bs ! bptr), 0, 0, Suc bptr)"
    by (rule read_entry_type_only)
next
  assume a: "W xref = Some [Decimal 1, Decimal 0, Decimal 0] \<and> Size xref = Some (Decimal n) \<and>
    Index xref = None \<and> nat n \<le> length (DecodedBytes xref) \<and>
    (\<forall>k<nat n. DecodedBytes xref ! k \<in> {0, 1, 2})"
  then have "0 + nat n \<le> length (DecodedBytes xref)"
    and "\<forall>k<nat n. DecodedBytes xref ! (0 + k) \<in> {0, 1, 2}" by simp_all
  from read_entries_type_only[OF this]
  obtain refs' where "read_entries (Some d) [1, 0, 0] (DecodedBytes xref) 0 (nat n) 0
      [free_list_head (Some d)] = Inr refs'" by blast
  with a show "\<exists>refs. read d xref = Inr refs"
    by (simp add: read_def get_root_def get_index_def)
qed

theorem zero_width_defaults_witness:
  "read_entry [0, 2, 1] [1, 0, 255] 0 = Inr (1, 256, 255, 3) \<and>
   read_entry [1, 0, 1] [2, 9] 0 = Inr (2, 0, 9, 2) \<and>
   read_entry [1, 1, 0] [2, 9] 0 = Inr (2, 9, 0, 2) \<and>
   read_entry [1, 0, 0] [0, 1, 2] 2 = Inr (2, 0, 0, 3) \<and>
   (\<exists>refs. read 7 stream_type_only = Inr refs) \<and>
   read 7 stream_type_only =
     Inr [free_list_head (Some 7),
          \<lparr>object_number = Some 1, generation_number = 0, parent_stream_object_number = None,
           index_in_parent_stream = None, byte_offset = Some 0, is_in_use = True,
           document = Some 7\<rparr>,
          \<lparr>object_number = Some 2, generation_number = 0, parent_stream_object_number = Some 0,
           index_in_parent_stream = Some 0, byte_offset = None, is_in_use = True,
           document = Some 7\<rparr>]"
proof -
  have e1: "read_entry [0, 2, 1] [1, 0, 255] 0 = Inr (1, 256, 255, 3)" by code_simp
  have e2: "read_entry [1, 0, 1] [2, 9] 0 = Inr (2, 0, 9, 2)" by code_simp
  have e3: "read_entry [1, 1, 0] [2, 9] 0 = Inr (2, 9, 0, 2)" by code_simp
  have e4: "read_entry [1, 0, 0] [0, 1, 2] 2 = Inr (2, 0, 0, 3)" by code_simp
  have r: "read 7 stream_type_only =
     Inr [free_list_head (Some 7),
          \<lparr>object_number = Some 1, generation_number = 0, parent_stream_object_number = None,
           index_in_parent_stream = None, byte_offset = Some 0, is_in_use = True,
           document = Some 7\<rparr>,
          \<lparr>object_number = Some 2, generation_number = 0, parent_stream_object_number = Some 0,
           index_in_parent_stream = Some 0, byte_offset = None, is_in_use = True,
           document = Some 7\<rparr>]" by code_simp
  have h: "W stream_type_only = Some [Decimal 1, Decimal 0, Decimal 0] \<and>
    Size stream_type_only = Some (Decimal 3) \<and> Index stream_type_only = None \<and>
    nat 3 \<le> length (DecodedBytes stream_type_only) \<and>
    (\<forall>k<nat 3. DecodedBytes stream_type_only ! k \<in> {0, 1, 2})"
    by (auto simp: stream_type_only_def less_Suc_eq numeral_3_eq_3)
  from zero_width_defaults[of 0 2 1 "[]" "[1, 0, 255]" 0 1 256 255 3 1 1 "[]" 2 0 9 2
      1 1 "[]" 2 9 0 2 stream_type_only 3 7] h
  have "\<exists>refs. read 7 stream_type_only = Inr refs" by blast
  then show ?thesis
    by (rule conjI[OF e1 conjI[OF e2 conjI[OF e3 conjI[OF e4 conjI[OF _ r]]]]])
qed

text \<open>
  C9: the list that a completed \<^verbatim>\<open>read\<close> hands to the xref holds exactly one
  reference with object number 0, generation 65535 and \<open>is_in_use\<close> false, also when
  the stream has an entry for object 0 of its own (as \<open>stream_head_entry\<close> has).
\<close>

theorem free_list_head_exactly_once:
  "read d xref = Inr refs \<Longrightarrow>
   length (filter (\<lambda>r. object_number r = Some 0 \<and> generation_number r = 65535 \<and> \<not> is_in_use r) refs) = 1"
  by (rule one_head) (rule refs_inv_read)

theorem free_list_head_exactly_once_witness:
  "read 7 stream_head_entry =
     Inr [free_list_head (Some 7),
          \<lparr>object_number = Some 1, generation_number = 0, parent_stream_object_number = None,
           index_in_parent_stream = None, byte_offset = Some 10, is_in_use = True,
           document = Some 7\<rparr>] \<and>
   length (filter (\<lambda>r. object_number r = Some 0 \<and> generation_number r = 65535 \<and> \<not> is_in_use r)
     [free_list_head (Some 7),
          \<lparr>object_number = Some 1, generation_number = 0, parent_stream_object_number = None,
           index_in_parent_stream = None, byte_offset = Some 10, is_in_use = True,
           document = Some 7\<rparr>]) = 1"
proof -
  have r: "read 7 stream_head_entry =
     Inr [free_list_head (Some 7),
          \<lparr>object_number = Some 1, generation_number = 0, parent_stream_object_number = None,
           index_in_parent_stream = None, byte_offset = Some 10, is_in_use = True,
           document = Some 7\<rparr>]"
    by code_simp
  from free_list_head_exactly_once[OF r] show ?thesis by (rule conjI[OF r])
qed

section \<open>Properties of the writer\<close>

subsection \<open>Relations that every step of a pass keeps\<close>

lemma step_closedD:
  assumes "step_closed R"
  shows "R c c" and "R c1 c2 \<Longrightarrow> R c2 c3 \<Longrightarrow> R c1 c3"
    and "R c (destination_write ch c)" and "get_reference a c = (r, c') \<Longrightarrow> R c c'"
    and "R c (start_object a c)" and "R c (end_object a c)"
    and "R c (c\<lparr>duplicate_references := duplicate_references c @ [r]\<rparr>)"
proof -
  show "R c c" using assms unfolding step_closed_def by blast
  show "R c1 c2 \<Longrightarrow> R c2 c3 \<Longrightarrow> R c1 c3" using assms unfolding step_closed_def by blast
  show "R c (destination_write ch c)" using assms unfolding step_closed_def by blast
  show "R c (end_object a c)" using assms unfolding step_closed_def end_object_def by blast
  show "R c (start_object a c)" using assms unfolding step_closed_def by blast
  show "R c (c\<lparr>duplicate_references := duplicate_references c @ [r]\<rparr>)"
    using assms unfolding step_closed_def by blast
  assume "get_reference a c = (r, c')"
  then have "c' = snd (get_reference a c)" by simp
  then show "R c c'" using assms unfolding step_closed_def by blast
qed

lemma rel_to_references:
  "step_closed R \<Longrightarrow> to_references kvs out queue ctx = (out', queue', ctx') \<Longrightarrow> R ctx ctx'"
proof (induction kvs arbitrary: out queue ctx)
  case Nil
  then show ?case by (simp add: step_closedD(1))
next
  case (Cons kv kvs)
  obtain k v where kv: "kv = (k, v)" by (cases kv)
  show ?case
  proof (cases "composite_address v")
    case None
    with Cons.prems kv have "to_references kvs (dict_set k v out) queue ctx = (out', queue', ctx')"
      by simp
    from Cons.IH[OF Cons.prems(1) this] show ?thesis .
  next
    case (Some a)
    obtain r ctx1 where g: "get_reference a ctx = (r, ctx1)" by (cases "get_reference a ctx")
    with Cons.prems kv Some
    have "to_references kvs (dict_set k (Indirect r) out) (queue @ [v]) ctx1 = (out', queue', ctx')"
      by simp
    from Cons.IH[OF Cons.prems(1) this] step_closedD(4)[OF Cons.prems(1) g]
    show ?thesis by (rule step_closedD(2)[OF Cons.prems(1), rotated])
  qed
qed

lemma rel_elements_to_references:
  "step_closed R \<Longrightarrow> elements_to_references vs out queue ctx = (out', queue', ctx') \<Longrightarrow> R ctx ctx'"
proof (induction vs arbitrary: out queue ctx)
  case Nil
  then show ?case by (simp add: step_closedD(1))
next
  case (Cons v vs)
  show ?case
  proof (cases "composite_address v")
    case None
    with Cons.prems have "elements_to_references vs (out @ [v]) queue ctx = (out', queue', ctx')"
      by simp
    from Cons.IH[OF Cons.prems(1) this] show ?thesis .
  next
    case (Some a)
    obtain r ctx1 where g: "get_reference a ctx = (r, ctx1)" by (cases "get_reference a ctx")
    with Cons.prems Some
    have "elements_to_references vs (out @ [Indirect r]) (queue @ [v]) ctx1 = (out', queue', ctx')"
      by simp
    from Cons.IH[OF Cons.prems(1) this] step_closedD(4)[OF Cons.prems(1) g]
    show ?thesis by (rule step_closedD(2)[OF Cons.prems(1), rotated])
  qed
qed

lemma rel_write_entries:
  "step_closed R \<Longrightarrow> results_in R root \<Longrightarrow> write_entries root N i kvs ctx = Some ctx' \<Longrightarrow>
   R ctx ctx'"
proof (induction kvs arbitrary: i ctx)
  case Nil
  then show ?case by (simp add: step_closedD(1))
next
  case (Cons kv kvs)
  note sc = Cons.prems(1)
  obtain k v where kv: "kv = (k, v)" by (cases kv)
  from Cons.prems(3) kv obtain ctx1 ctx2 where
    k: "root (Name k) ctx = Some ctx1" and
    v: "root v (destination_write (Raw '' '') ctx1) = Some ctx2" and
    rest: "write_entries root N (Suc i) kvs
      (if int i \<noteq> int N - 1 then destination_write (Raw '' '') ctx2 else ctx2) = Some ctx'"
    by (auto split: option.splits)
  from Cons.prems(2) k have 1: "R ctx ctx1" by (auto simp: results_in_def)
  have 2: "R ctx1 (destination_write (Raw '' '') ctx1)" by (rule step_closedD(3)[OF sc])
  from Cons.prems(2) v have 3: "R (destination_write (Raw '' '') ctx1) ctx2"
    by (auto simp: results_in_def)
  have 4: "R ctx2 (if int i \<noteq> int N - 1 then destination_write (Raw '' '') ctx2 else ctx2)"
    by (simp add: step_closedD(1,3)[OF sc])
  note 5 = Cons.IH[OF sc Cons.prems(2) rest]
  note t = step_closedD(2)[OF sc]
  show ?case by (rule t[OF t[OF t[OF t[OF 1 2] 3] 4] 5])
qed

lemma rel_write_dictionary:
  assumes sc: "step_closed R" and "results_in R root" and w: "write_dictionary root out ctx = Some ctx'"
  shows "R ctx ctx'"
proof -
  from w obtain c where e: "write_entries root (length out) 0 out (destination_write (Raw ''<<'') ctx) = Some c"
    and c: "ctx' = destination_write (Raw (''>>'' @ [CHR 0x0A])) c"
    by (auto simp: write_dictionary_def split: option.splits)
  note t = step_closedD(2)[OF sc]
  show ?thesis
    unfolding c
    by (rule t[OF t[OF step_closedD(3)[OF sc] rel_write_entries[OF sc assms(2) e]]
          step_closedD(3)[OF sc]])
qed

lemma rel_transform_queue:
  "step_closed R \<Longrightarrow> results_in R root \<Longrightarrow> transform_queue root queue ctx = Some ctx' \<Longrightarrow>
   R ctx ctx'"
proof (induction queue arbitrary: ctx)
  case Nil
  then show ?case by (simp add: step_closedD(1))
next
  case (Cons e queue)
  from Cons.prems(3) obtain ctx1 where e: "root e ctx = Some ctx1"
    and rest: "transform_queue root queue ctx1 = Some ctx'"
    by (auto split: option.splits)
  from Cons.prems(2) e have "R ctx ctx1" by (auto simp: results_in_def)
  from this Cons.IH[OF Cons.prems(1,2) rest] show ?case
    by (rule step_closedD(2)[OF Cons.prems(1)])
qed

text \<open>The states that \<open>emit\<close> goes through when it does not return at once.\<close>

lemma emit_TrueE:
  assumes "emit root a write_body queue ctx = Some (True, ctx')"
  obtains ctx4 where
    "case back_reference (objects ctx ! a) of None \<Rightarrow> True
       | Some r \<Rightarrow> r \<notin> set (duplicate_references ctx)"
    "write_body
       (let ctx2 = (if (case back_reference (objects ctx ! a) of None \<Rightarrow> False
                        | Some r \<Rightarrow> object_number r \<noteq> None \<and> byte_offset r = None)
                    then start_object a ctx else ctx)
        in case back_reference (objects ctx2 ! a) of None \<Rightarrow> ctx2
           | Some r \<Rightarrow> ctx2\<lparr>duplicate_references := duplicate_references ctx2 @ [r]\<rparr>) = Some ctx4"
    "transform_queue root queue
       (if (case back_reference (objects ctx ! a) of None \<Rightarrow> False
            | Some r \<Rightarrow> object_number r \<noteq> None \<and> byte_offset r = None)
        then end_object a ctx4 else ctx4) = Some ctx'"
  using assms unfolding emit_def Let_def
  by (auto split: if_splits option.splits)

lemma emit_FalseD:
  "emit root a write_body queue ctx = Some (False, ctx') \<Longrightarrow>
   ctx' = ctx \<and> (\<exists>r. back_reference (objects ctx ! a) = Some r \<and> r \<in> set (duplicate_references ctx))"
  unfolding emit_def Let_def by (auto split: if_splits option.splits)

lemma rel_emit:
  assumes sc: "step_closed R" and root: "results_in R root"
    and body: "\<And>c c'. write_body c = Some c' \<Longrightarrow> R c c'"
    and e: "emit root a write_body queue ctx = Some (b, ctx')"
  shows "R ctx ctx'"
proof (cases b)
  case False
  with e have "ctx' = ctx" by (auto dest: emit_FalseD)
  then show ?thesis by (simp add: step_closedD(1)[OF sc])
next
  case True
  define started where "started = (case back_reference (objects ctx ! a) of None \<Rightarrow> False
                | Some r \<Rightarrow> object_number r \<noteq> None \<and> byte_offset r = None)"
  define ctx2 where "ctx2 = (if started then start_object a ctx else ctx)"
  define ctx3 where "ctx3 = (case back_reference (objects ctx2 ! a) of
                  None \<Rightarrow> ctx2
                | Some r \<Rightarrow> ctx2\<lparr>duplicate_references := duplicate_references ctx2 @ [r]\<rparr>)"
  from e True obtain ctx4 where
    w: "write_body ctx3 = Some ctx4" and
    q: "transform_queue root queue (if started then end_object a ctx4 else ctx4) = Some ctx'"
    unfolding started_def ctx2_def ctx3_def by (auto elim!: emit_TrueE simp: Let_def)
  note t = step_closedD(2)[OF sc]
  have 1: "R ctx ctx2" by (simp add: ctx2_def step_closedD(1,5)[OF sc])
  have 2: "R ctx2 ctx3" by (simp add: ctx3_def step_closedD(1,7)[OF sc] split: option.splits)
  note 3 = body[OF w]
  have 4: "R ctx4 (if started then end_object a ctx4 else ctx4)"
    by (simp add: step_closedD(1,6)[OF sc])
  note 5 = rel_transform_queue[OF sc root q]
  show ?thesis by (rule t[OF t[OF t[OF t[OF 1 2] 3] 4] 5])
qed

lemma rel_transform:
  assumes sc: "step_closed R" and root: "results_in R root"
    and tr: "transform root a kvs ctx = Some (ret, ctx')"
  shows "R ctx ctx'"
proof -
  obtain out queue ctx1 where t: "to_references kvs [] [] ctx = (out, queue, ctx1)"
    by (cases "to_references kvs [] [] ctx") auto
  with tr obtain b where
    e: "emit root a (write_dictionary root out) queue ctx1 = Some (b, ctx')"
    by (auto simp: transform_def split: option.splits)
  have "R ctx1 ctx'"
    by (rule rel_emit[OF sc root _ e]) (rule rel_write_dictionary[OF sc root])
  with rel_to_references[OF sc t] show ?thesis by (rule step_closedD(2)[OF sc])
qed

lemma rel_transform_other:
  assumes sc: "step_closed R" and root: "results_in R root"
    and tr: "transform_other root a c ctx = Some ctx'"
  shows "R ctx ctx'"
proof -
  obtain out queue ctx1 where t: "elements_to_references (children c) [] [] ctx = (out, queue, ctx1)"
    by (cases "elements_to_references (children c) [] [] ctx") auto
  with tr obtain b where
    e: "emit root a (\<lambda>ctx'. Some (destination_write (Body (with_children c out)) ctx')) queue ctx1
          = Some (b, ctx')"
    by (auto simp: transform_other_def)
  have "R ctx1 ctx'"
    by (rule rel_emit[OF sc root _ e]) (auto simp: step_closedD(3)[OF sc])
  with rel_elements_to_references[OF sc t] show ?thesis by (rule step_closedD(2)[OF sc])
qed

lemma root_transform_cases:
  assumes "root_transform (Suc n) v ctx = Some ctx'"
  obtains
    (leaf) "composite_address v = None" "ctx' = destination_write (case v of Indirect r \<Rightarrow> IndirectRef r | _ \<Rightarrow> Leaf v) ctx"
  | (dictionary) a kvs ret where "v = Composite a" "content (objects ctx ! a) = Dictionary kvs"
      "transform (root_transform n) a kvs ctx = Some (ret, ctx')"
  | (other) a where "v = Composite a" "\<forall>kvs. content (objects ctx ! a) \<noteq> Dictionary kvs"
      "transform_other (root_transform n) a (content (objects ctx ! a)) ctx = Some ctx'"
proof (cases "composite_address v")
  case None
  with assms have "ctx' = destination_write (case v of Indirect r \<Rightarrow> IndirectRef r | _ \<Rightarrow> Leaf v) ctx"
    by (cases v) auto
  with None show ?thesis by (rule leaf)
next
  case (Some a)
  then have v: "v = Composite a" by (cases v) auto
  show ?thesis
  proof (cases "content (objects ctx ! a)")
    case (Dictionary kvs)
    with assms v obtain ret where "transform (root_transform n) a kvs ctx = Some (ret, ctx')"
      by auto
    with v Dictionary show ?thesis by (rule dictionary)
  next
    case (List vs)
    with assms v show ?thesis by (intro other[of a]) auto
  next
    case (Stream kvs bs)
    with assms v show ?thesis by (intro other[of a]) auto
  next
    case Image
    with assms v show ?thesis by (intro other[of a]) auto
  qed
qed

lemma results_in_root_transform:
  assumes sc: "step_closed R"
  shows "results_in R (root_transform n)"
proof (induction n)
  case 0
  show ?case by (simp add: results_in_def)
next
  case (Suc n)
  show ?case
    unfolding results_in_def
  proof (intro allI impI)
    fix v ctx ctx'
    assume r: "root_transform (Suc n) v ctx = Some ctx'"
    from r show "R ctx ctx'"
    proof (cases rule: root_transform_cases)
      case leaf
      then show ?thesis by (simp add: step_closedD(3)[OF sc])
    next
      case (dictionary a kvs ret)
      from rel_transform[OF sc Suc dictionary(3)] show ?thesis .
    next
      case (other a)
      from rel_transform_other[OF sc Suc other(3)] show ?thesis .
    qed
  qed
qed

lemma contents_update:
  "map content (xs[a := (xs ! a)\<lparr>back_reference := r\<rparr>]) = map content xs"
proof (cases "a < length xs")
  case True
  then show ?thesis by (simp add: map_update list_update_same_conv)
next
  case False
  then have "xs[a := (xs ! a)\<lparr>back_reference := r\<rparr>] = xs"
    by (intro list_update_beyond) simp
  then show ?thesis by simp
qed

lemma destination_write_simps [simp]:
  "objects (destination_write c ctx) = objects ctx"
  "duplicate_references (destination_write c ctx) = duplicate_references ctx"
  "next_object_number (destination_write c ctx) = next_object_number ctx"
  "destination (destination_write c ctx) = destination ctx @ [c]"
  by (simp_all add: destination_write_def)

lemma set_reference_simps [simp]:
  "length (objects (set_reference a r ctx)) = length (objects ctx)"
  "duplicate_references (set_reference a r ctx) = duplicate_references ctx"
  "next_object_number (set_reference a r ctx) = next_object_number ctx"
  "destination (set_reference a r ctx) = destination ctx"
  by (simp_all add: set_reference_def)

lemma set_reference_contents [simp]:
  "map content (objects (set_reference a r ctx)) = map content (objects ctx)"
  by (simp add: set_reference_def contents_update)

lemma end_object_simps [simp]:
  "objects (end_object a ctx) = objects ctx"
  "duplicate_references (end_object a ctx) = duplicate_references ctx"
  "next_object_number (end_object a ctx) = next_object_number ctx"
  "destination (end_object a ctx) = destination ctx @ [EndObject]"
  by (simp_all add: end_object_def)

lemma step_closed_same_contents: "step_closed same_contents"
  unfolding step_closed_def same_contents_def
  by (auto simp: get_reference_def start_object_def Let_def split: option.splits)

lemma step_closed_extends: "step_closed extends"
  unfolding step_closed_def extends_def
  by (auto simp: get_reference_def start_object_def Let_def split: option.splits)

lemma root_transform_same_contents:
  "root_transform n v ctx = Some ctx' \<Longrightarrow> map content (objects ctx') = map content (objects ctx)"
  using results_in_root_transform[OF step_closed_same_contents, of n]
  by (simp add: results_in_def same_contents_def)

lemma root_transform_extends:
  "root_transform n v ctx = Some ctx' \<Longrightarrow> extends ctx ctx'"
  using results_in_root_transform[OF step_closed_extends, of n]
  by (simp add: results_in_def)

subsection \<open>The loop that turns composite children into references\<close>

lemma get_reference_valid:
  assumes "get_reference a ctx = (r, ctx')" and "a < length (objects ctx)"
  shows "back_reference (objects ctx' ! a) = Some r" and "object_number r \<noteq> None"
    and "numbered ctx a \<Longrightarrow> back_reference (objects ctx ! a) = Some r \<and> ctx' = ctx"
    and "\<not> numbered ctx a \<Longrightarrow> r = new_reference (next_object_number ctx) \<and>
           next_object_number ctx' = next_object_number ctx + 1"
  using assms
  by (auto simp: get_reference_def Let_def set_reference_def new_reference_def numbered_def
      split: option.splits if_splits)


lemma get_reference_length:
  "get_reference a ctx = (r, ctx') \<Longrightarrow> length (objects ctx') = length (objects ctx)"
  by (auto simp: get_reference_def Let_def split: option.splits if_splits)





lemma replaced_not_composite:
  "composite_address (replaced ctx v) = None"
  by (cases "composite_address v") (auto simp: replaced_def)

lemma loops_agree:
  "to_references kvs out queue ctx = (out', queue', ctx') \<Longrightarrow>
   \<exists>vs'. elements_to_references (map snd kvs) vs queue ctx = (vs', queue', ctx')"
proof (induction kvs arbitrary: out queue ctx vs)
  case Nil
  then show ?case by simp
next
  case (Cons kv kvs)
  obtain k v where kv: "kv = (k, v)" by (cases kv)
  show ?case
  proof (cases "composite_address v")
    case None
    with Cons.prems kv have "to_references kvs (dict_set k v out) queue ctx = (out', queue', ctx')"
      by simp
    from Cons.IH[OF this, of "vs @ [v]"] None kv show ?thesis by simp
  next
    case (Some a)
    obtain r ctx1 where g: "get_reference a ctx = (r, ctx1)" by (cases "get_reference a ctx")
    with Cons.prems kv Some
    have "to_references kvs (dict_set k (Indirect r) out) (queue @ [v]) ctx1 = (out', queue', ctx')"
      by simp
    from Cons.IH[OF this, of "vs @ [Indirect r]"] Some kv g show ?thesis by simp
  qed
qed

lemma elements_rel:
  assumes refl: "\<And>c. R c c" and trans: "\<And>c1 c2 c3. R c1 c2 \<Longrightarrow> R c2 c3 \<Longrightarrow> R c1 c3"
    and get: "\<And>a c. R c (snd (get_reference a c))"
  shows "elements_to_references vs out queue ctx = (out', queue', ctx') \<Longrightarrow> R ctx ctx'"
proof (induction vs arbitrary: out queue ctx)
  case Nil
  then show ?case by (simp add: refl)
next
  case (Cons v vs)
  show ?case
  proof (cases "composite_address v")
    case None
    with Cons.prems have "elements_to_references vs (out @ [v]) queue ctx = (out', queue', ctx')"
      by simp
    then show ?thesis by (rule Cons.IH)
  next
    case (Some a)
    obtain r ctx1 where g: "get_reference a ctx = (r, ctx1)" by (cases "get_reference a ctx")
    with Cons.prems Some
    have "elements_to_references vs (out @ [Indirect r]) (queue @ [v]) ctx1 = (out', queue', ctx')"
      by simp
    then have "R ctx1 ctx'" by (rule Cons.IH)
    moreover from get[of ctx a] g have "R ctx ctx1" by simp
    ultimately show ?thesis by (rule trans[rotated])
  qed
qed

lemma new_reference_numbered [simp]: "object_number (new_reference m) = Some m"
  by (simp add: new_reference_def)

lemma assigns_only_refl: "assigns_only c c"
  by (simp add: assigns_only_def)

lemma assigns_only_numbered:
  "assigns_only c c' \<Longrightarrow> numbered c b \<Longrightarrow>
   back_reference (objects c' ! b) = back_reference (objects c ! b)"
  unfolding assigns_only_def by blast

lemma assigns_only_trans:
  assumes 1: "assigns_only c1 c2" and 2: "assigns_only c2 c3"
  shows "assigns_only c1 c3"
proof -
  have "back_reference (objects c3 ! b) = back_reference (objects c1 ! b) \<or>
          (\<not> numbered c1 b \<and>
           (\<exists>m. next_object_number c1 \<le> m \<and> m < next_object_number c3 \<and>
                back_reference (objects c3 ! b) = Some (new_reference m)))" for b
  proof (cases "back_reference (objects c2 ! b) = back_reference (objects c1 ! b)")
    case same: True
    show ?thesis
    proof (cases "back_reference (objects c3 ! b) = back_reference (objects c2 ! b)")
      case True
      with same show ?thesis by simp
    next
      case False
      with 2 obtain m where m: "\<not> numbered c2 b" "next_object_number c2 \<le> m"
        "m < next_object_number c3" "back_reference (objects c3 ! b) = Some (new_reference m)"
        unfolding assigns_only_def by blast
      from 1 have "next_object_number c1 \<le> next_object_number c2"
        by (simp add: assigns_only_def)
      with m have "next_object_number c1 \<le> m" by simp
      moreover from m(1) same have "\<not> numbered c1 b" by (simp add: numbered_def)
      ultimately show ?thesis using m(3,4) by blast
    qed
  next
    case False
    with 1 obtain m where m: "\<not> numbered c1 b" "next_object_number c1 \<le> m"
        "m < next_object_number c2" "back_reference (objects c2 ! b) = Some (new_reference m)"
      unfolding assigns_only_def by blast
    then have "numbered c2 b" by (simp add: numbered_def)
    from assigns_only_numbered[OF 2 this] m
    have "back_reference (objects c3 ! b) = Some (new_reference m)" by simp
    moreover from 2 have "next_object_number c2 \<le> next_object_number c3"
      by (simp add: assigns_only_def)
    ultimately show ?thesis using m by force
  qed
  with 1 2 show ?thesis unfolding assigns_only_def by auto
qed

lemma assigns_only_get_reference: "assigns_only c (snd (get_reference a c))"
proof (cases "numbered c a")
  case True
  then have "snd (get_reference a c) = c"
    by (auto simp: get_reference_def numbered_def Let_def split: option.splits)
  then show ?thesis by (simp add: assigns_only_refl)
next
  case False
  then have s: "snd (get_reference a c) =
      (set_reference a (new_reference (next_object_number c)) c)
        \<lparr>next_object_number := next_object_number c + 1\<rparr>"
    by (auto simp: get_reference_def numbered_def Let_def split: option.splits)
  have "back_reference (objects (set_reference a r c) ! b) = back_reference (objects c ! b) \<or>
        (b = a \<and> back_reference (objects (set_reference a r c) ! b) = Some r)" for b r
  proof (cases "a < length (objects c)")
    case True
    then show ?thesis by (cases "b = a") (auto simp: set_reference_def)
  next
    case False
    then have "(objects c)[a := (objects c ! a)\<lparr>back_reference := Some r\<rparr>] = objects c"
      by (intro list_update_beyond) simp
    then show ?thesis by (simp add: set_reference_def)
  qed
  with False show ?thesis
    unfolding s assigns_only_def by (auto simp: set_reference_def)
qed

lemma elements_assigns_only:
  "elements_to_references vs out queue ctx = (out', queue', ctx') \<Longrightarrow> assigns_only ctx ctx'"
  by (rule elements_rel[where R = assigns_only])
    (auto intro: assigns_only_refl assigns_only_trans assigns_only_get_reference)

lemma to_references_assigns_only:
  "to_references kvs out queue ctx = (out', queue', ctx') \<Longrightarrow> assigns_only ctx ctx'"
  using loops_agree[of kvs out queue ctx out' queue' ctx' "[]"] elements_assigns_only by blast

lemma elements_numbers_children:
  "elements_to_references vs out queue ctx = (out', queue', ctx') \<Longrightarrow>
   Composite b \<in> set vs \<Longrightarrow> b < length (objects ctx) \<Longrightarrow> numbered ctx' b"
proof (induction vs arbitrary: out queue ctx)
  case Nil
  then show ?case by simp
next
  case (Cons v vs)
  show ?case
  proof (cases "composite_address v")
    case None
    with Cons.prems have t: "elements_to_references vs (out @ [v]) queue ctx = (out', queue', ctx')"
      and "Composite b \<in> set vs"
      by auto
    from Cons.IH[OF this Cons.prems(3)] show ?thesis .
  next
    case (Some a)
    then have v: "v = Composite a" by (cases v) auto
    obtain r ctx1 where g: "get_reference a ctx = (r, ctx1)" by (cases "get_reference a ctx")
    with Cons.prems Some
    have t: "elements_to_references vs (out @ [Indirect r]) (queue @ [v]) ctx1 = (out', queue', ctx')"
      by simp
    note len = get_reference_length[OF g]
    show ?thesis
    proof (cases "b = a")
      case True
      with get_reference_valid(1,2)[OF g] Cons.prems(3) have "numbered ctx1 b"
        by (auto simp: numbered_def)
      with assigns_only_numbered[OF elements_assigns_only[OF t] this] show ?thesis
        by (simp add: numbered_def)
    next
      case False
      with Cons.prems(2) v have "Composite b \<in> set vs" by simp
      from Cons.IH[OF t this] Cons.prems(3) len show ?thesis by simp
    qed
  qed
qed

lemma elements_queue:
  "elements_to_references vs out queue ctx = (out', queue', ctx') \<Longrightarrow>
   queue' = queue @ filter (\<lambda>v. composite_address v \<noteq> None) vs"
proof (induction vs arbitrary: out queue ctx)
  case Nil
  then show ?case by simp
next
  case (Cons v vs)
  show ?case
  proof (cases "composite_address v")
    case None
    with Cons.prems have "elements_to_references vs (out @ [v]) queue ctx = (out', queue', ctx')"
      by simp
    from Cons.IH[OF this] None show ?thesis by simp
  next
    case (Some a)
    obtain r ctx1 where g: "get_reference a ctx = (r, ctx1)" by (cases "get_reference a ctx")
    with Cons.prems Some
    have "elements_to_references vs (out @ [Indirect r]) (queue @ [v]) ctx1 = (out', queue', ctx')"
      by simp
    from Cons.IH[OF this] Some show ?thesis by simp
  qed
qed


lemma to_references_queue:
  assumes "to_references kvs out queue ctx = (out', queue', ctx')"
  shows "queue' = queue @ filter (\<lambda>v. composite_address v \<noteq> None) (map snd kvs)"
  using loops_agree[OF assms(1), of "[]"] elements_queue by blast

subsection \<open>The body of a dictionary\<close>

lemma root_transform_leaf:
  "composite_address v = None \<Longrightarrow>
   root_transform (Suc m) v ctx = Some (destination_write (value_chunk v) ctx)"
  by (cases v) auto

lemma write_entries_chunks:
  "\<forall>kv\<in>set kvs. composite_address (snd kv) = None \<Longrightarrow> N = i + length kvs \<Longrightarrow>
   write_entries (root_transform (Suc m)) N i kvs ctx =
     Some (ctx\<lparr>destination := destination ctx @ entries_chunks kvs\<rparr>)"
proof (induction kvs arbitrary: i ctx rule: entries_chunks.induct)
  case 1
  then show ?case by simp
next
  case (2 k v)
  then show ?case
    by (simp add: root_transform_leaf destination_write_def del: root_transform.simps)
next
  case (3 k v kv kvs)
  from "3.prems" have nc: "composite_address v = None"
    and rest: "\<forall>kv\<in>set (kv # kvs). composite_address (snd kv) = None"
    and N: "N = Suc i + length (kv # kvs)" and sep: "int i \<noteq> int N - 1"
    by auto
  show ?case
    using "3.IH"[OF rest N] nc sep
    by (simp add: root_transform_leaf destination_write_def del: root_transform.simps)
qed

lemma write_dictionary_chunks:
  assumes "\<forall>kv\<in>set out. composite_address (snd kv) = None"
    and "write_dictionary (root_transform n) out ctx = Some ctx'"
  shows "ctx' = ctx\<lparr>destination := destination ctx @ dictionary_chunks out\<rparr>"
proof (cases n)
  case 0
  with assms(2) have "out = []"
    by (cases out) (auto simp: write_dictionary_def split: option.splits)
  with assms(2) show ?thesis
    by (simp add: write_dictionary_def dictionary_chunks_def destination_write_def)
next
  case (Suc m)
  from write_entries_chunks[OF assms(1), of "length out" 0 m "destination_write (Raw ''<<'') ctx"]
    assms(2)
  show ?thesis
    unfolding Suc write_dictionary_def dictionary_chunks_def
    by (simp add: destination_write_def del: root_transform.simps)
qed


section \<open>The claim about the input dictionary\<close>

text \<open>
  C10: \<^verbatim>\<open>transform\<close> leaves the items of its input dictionary, and of every other object
  of the store, as they are; what it returns is the dictionary \<^verbatim>\<open>out_value\<close> that the
  loop of lines 41 to 51 has built.
\<close>

theorem transform_keeps_input_dictionary:
  assumes "transform (root_transform n) a kvs ctx = Some (ret, ctx')"
    and "a < length (objects ctx)" and "content (objects ctx ! a) = Dictionary kvs"
  shows "content (objects ctx' ! a) = Dictionary kvs \<and>
         map content (objects ctx') = map content (objects ctx) \<and>
         (\<forall>out_value. ret = Some out_value \<longrightarrow> out_value = fst (to_references kvs [] [] ctx))"
proof -
  from rel_transform[OF step_closed_same_contents
      results_in_root_transform[OF step_closed_same_contents] assms(1)]
  have m: "map content (objects ctx') = map content (objects ctx)"
    by (simp add: same_contents_def)
  then have "length (objects ctx') = length (objects ctx)" by (rule map_eq_imp_length_eq)
  with assms(2) have "content (objects ctx' ! a) = map content (objects ctx') ! a" by simp
  also have "\<dots> = content (objects ctx ! a)" using m assms(2) by simp
  finally have "content (objects ctx' ! a) = Dictionary kvs" using assms(3) by simp
  moreover have "\<forall>out_value. ret = Some out_value \<longrightarrow> out_value = fst (to_references kvs [] [] ctx)"
    using assms(1) by (auto simp: transform_def split: prod.splits option.splits if_splits)
  ultimately show ?thesis using m by blast
qed

theorem transform_keeps_input_dictionary_witness:
  "content (objects (snd (the (transform (root_transform 3) 0 self_items
      (new_context self_dictionary 1)))) ! 0) = Dictionary self_items \<and>
   fst (the (transform (root_transform 3) 0 self_items (new_context self_dictionary 1))) =
     Some [(''Type'', Name ''Catalog''), (''Self'', Indirect (new_reference 1))]"
  (is "?A \<and> ?B")
proof -
  let ?ctx = "new_context self_dictionary 1"
  let ?r = "the (transform (root_transform 3) 0 self_items ?ctx)"
  have b: ?B by code_simp
  have "transform (root_transform 3) 0 self_items ?ctx \<noteq> None" by code_simp
  then have t: "transform (root_transform 3) 0 self_items ?ctx = Some (fst ?r, snd ?r)" by auto
  have l: "0 < length (objects ?ctx)" by (simp add: new_context_def self_dictionary_def)
  have c: "content (objects ?ctx ! 0) = Dictionary self_items"
    by (simp add: new_context_def self_dictionary_def self_items_def)
  from transform_keeps_input_dictionary[OF t l c] have a: ?A by blast
  show ?thesis by (rule conjI[OF a b])
qed

section \<open>Whole passes of the writer\<close>

subsection \<open>The lines \<^verbatim>\<open>N G obj\<close> and \<^verbatim>\<open>endobj\<close> in a text\<close>

lemma object_headers_simps [simp]:
  "object_headers N [] = 0"
  "object_headers N (ch # out) = (if header_of N ch then 1 else 0) + object_headers N out"
  "object_headers N (out @ out') = object_headers N out + object_headers N out'"
  by (simp_all add: object_headers_def)

lemma plain_no_header: "plain ch \<Longrightarrow> \<not> header_of N ch"
  by (cases ch) simp_all

lemma object_headers_plain: "\<forall>ch\<in>set out. plain ch \<Longrightarrow> object_headers N out = 0"
  by (induction out) (simp_all add: plain_no_header)

lemma object_bodies_plain:
  "\<forall>ch\<in>set out. plain ch \<Longrightarrow>
   object_bodies N opened (out @ rest) = object_bodies N opened rest"
proof (induction out)
  case Nil
  then show ?case by simp
next
  case (Cons ch out)
  then show ?case by (cases ch) simp_all
qed

lemma inside_object_plain:
  "\<forall>ch\<in>set out. plain ch \<Longrightarrow> inside_object opened (out @ rest) = inside_object opened rest"
proof (induction out)
  case Nil
  then show ?case by simp
next
  case (Cons ch out)
  then show ?case by (cases ch) simp_all
qed

lemma inside_object_append:
  "\<not> inside_object opened out \<Longrightarrow> inside_object opened (out @ rest) = inside_object False rest"
proof (induction out arbitrary: opened)
  case Nil
  then show ?case by simp
next
  case (Cons ch out)
  then show ?case by (cases ch) simp_all
qed

lemma object_bodies_append:
  "\<not> inside_object opened' out \<Longrightarrow> (opened \<longrightarrow> opened') \<Longrightarrow>
   object_bodies N opened (out @ rest) = object_bodies N opened out + object_bodies N False rest"
proof (induction out arbitrary: opened opened')
  case Nil
  then show ?case by simp
next
  case (Cons ch out)
  show ?case
  proof (cases ch)
    case (StartObject r)
    with Cons.prems have "\<not> inside_object True out" by simp
    from Cons.IH[OF this, of "object_number r = Some N"] StartObject show ?thesis by simp
  next
    case EndObject
    with Cons.prems have "\<not> inside_object False out" by simp
    from Cons.IH[OF this, of False] EndObject show ?thesis by simp
  next
    case (Raw s)
    with Cons.prems have "\<not> inside_object opened' out" by simp
    from Cons.IH[OF this, of opened] Cons.prems(2) Raw show ?thesis by simp
  next
    case (Leaf v)
    with Cons.prems have "\<not> inside_object opened' out" by simp
    from Cons.IH[OF this, of opened] Cons.prems(2) Leaf show ?thesis by simp
  next
    case (IndirectRef r)
    with Cons.prems have "\<not> inside_object opened' out" by simp
    from Cons.IH[OF this, of opened] Cons.prems(2) IndirectRef show ?thesis by simp
  next
    case (Body c)
    with Cons.prems have "\<not> inside_object opened' out" by simp
    from Cons.IH[OF this, of opened] Cons.prems(2) Body show ?thesis by simp
  qed
qed

lemma text_closed_Nil [simp]: "text_closed []"
  by (simp add: text_closed_def)

lemma text_closed_bodies:
  "text_closed out \<Longrightarrow>
   object_bodies N False (out @ rest) = object_headers N out + object_bodies N False rest"
  using object_bodies_append[of False out False N rest] by (simp add: text_closed_def)

lemma text_closed_append:
  assumes "text_closed out" and "text_closed rest"
  shows "text_closed (out @ rest)"
proof -
  from assms(1) have "\<not> inside_object False out" by (simp add: text_closed_def)
  from inside_object_append[OF this, of rest] assms(2)
  have "\<not> inside_object False (out @ rest)" by (simp add: text_closed_def)
  moreover have "object_bodies N False (out @ rest) = object_headers N (out @ rest)" for N
    using text_closed_bodies[OF assms(1), of N rest] assms(2) by (simp add: text_closed_def)
  ultimately show ?thesis by (simp add: text_closed_def)
qed

lemma text_closed_plain:
  assumes "\<forall>ch\<in>set chunks. plain ch"
  shows "text_closed chunks"
  using object_headers_plain[OF assms] object_bodies_plain[OF assms, of _ False "[]"]
    inside_object_plain[OF assms, of False "[]"]
  by (simp add: text_closed_def)

lemma text_closed_object:
  assumes "\<forall>ch\<in>set chunks. plain ch"
  shows "text_closed ([StartObject r] @ chunks @ [EndObject])"
  using object_headers_plain[OF assms] object_bodies_plain[OF assms, of _ _ "[EndObject]"]
    inside_object_plain[OF assms, of True "[EndObject]"]
  by (simp add: text_closed_def)

lemma value_chunk_plain [simp]: "plain (value_chunk v)"
  by (cases v) simp_all

lemma entries_chunks_plain: "\<forall>ch\<in>set (entries_chunks kvs). plain ch"
  by (induction kvs rule: entries_chunks.induct) simp_all

lemma dictionary_chunks_plain: "\<forall>ch\<in>set (dictionary_chunks kvs). plain ch"
  by (simp add: dictionary_chunks_def entries_chunks_plain)

subsection \<open>The invariant of a pass\<close>

lemma pass_invD:
  assumes "pass_inv L c"
  shows "b < length (objects c) \<Longrightarrow> back_reference (objects c ! b) = Some r \<Longrightarrow>
           \<exists>m. object_number r = Some m \<and> m < next_object_number c"
    and "b < length (objects c) \<Longrightarrow> b' < length (objects c) \<Longrightarrow>
         back_reference (objects c ! b) = Some r \<Longrightarrow> back_reference (objects c ! b') = Some r' \<Longrightarrow>
         object_number r = object_number r' \<Longrightarrow> b = b'"
    and "b < length (objects c) \<Longrightarrow> back_reference (objects c ! b) = Some r \<Longrightarrow>
           (byte_offset r \<noteq> None) =
           (r \<in> set (duplicate_references c) \<or> (\<exists>N\<in>L. object_number r = Some N))"
    and "r \<in> set (duplicate_references c) \<Longrightarrow>
           \<exists>b<length (objects c). back_reference (objects c ! b) = Some r"
    and "distinct (duplicate_references c)"
    and "object_headers N (destination c) =
           (if N \<notin> L \<and> (\<exists>r\<in>set (duplicate_references c). object_number r = Some N)
            then 1 else 0)"
    and "N \<in> L \<Longrightarrow> \<exists>b<length (objects c). \<exists>r.
           back_reference (objects c ! b) = Some r \<and> object_number r = Some N"
proof -
  from assms have 1: "refs_numbered c" and 2: "refs_distinct c" and 3: "located_iff_listed L c"
    and 4: "listed_owned c" and 5: "headers_once L c" and 6: "located_owned L c"
    by (simp_all add: pass_inv_def)
  show "b < length (objects c) \<Longrightarrow> back_reference (objects c ! b) = Some r \<Longrightarrow>
           \<exists>m. object_number r = Some m \<and> m < next_object_number c"
    using 1 unfolding refs_numbered_def by blast
  show "b < length (objects c) \<Longrightarrow> b' < length (objects c) \<Longrightarrow>
         back_reference (objects c ! b) = Some r \<Longrightarrow> back_reference (objects c ! b') = Some r' \<Longrightarrow>
         object_number r = object_number r' \<Longrightarrow> b = b'"
    using 2 unfolding refs_distinct_def by blast
  show "b < length (objects c) \<Longrightarrow> back_reference (objects c ! b) = Some r \<Longrightarrow>
           (byte_offset r \<noteq> None) =
           (r \<in> set (duplicate_references c) \<or> (\<exists>N\<in>L. object_number r = Some N))"
    using 3 unfolding located_iff_listed_def by blast
  show "r \<in> set (duplicate_references c) \<Longrightarrow>
           \<exists>b<length (objects c). back_reference (objects c ! b) = Some r"
    using 4 unfolding listed_owned_def by blast
  show "distinct (duplicate_references c)" using 5 by (simp add: headers_once_def)
  show "object_headers N (destination c) =
           (if N \<notin> L \<and> (\<exists>r\<in>set (duplicate_references c). object_number r = Some N)
            then 1 else 0)"
    using 5 unfolding headers_once_def by blast
  show "N \<in> L \<Longrightarrow> \<exists>b<length (objects c). \<exists>r.
           back_reference (objects c ! b) = Some r \<and> object_number r = Some N"
    using 6 unfolding located_owned_def by blast
qed

lemma located_below:
  assumes "pass_inv L c" and "N \<in> L"
  shows "N < next_object_number c"
proof -
  from pass_invD(7)[OF assms] obtain b r where "b < length (objects c)"
    "back_reference (objects c ! b) = Some r" "object_number r = Some N" by blast
  with pass_invD(1)[OF assms(1), of b r] show ?thesis by simp
qed

lemma pass_invI:
  assumes "\<And>b r. b < length (objects c) \<Longrightarrow> back_reference (objects c ! b) = Some r \<Longrightarrow>
           \<exists>m. object_number r = Some m \<and> m < next_object_number c"
    and "\<And>b b' r r'. b < length (objects c) \<Longrightarrow> b' < length (objects c) \<Longrightarrow>
         back_reference (objects c ! b) = Some r \<Longrightarrow> back_reference (objects c ! b') = Some r' \<Longrightarrow>
         object_number r = object_number r' \<Longrightarrow> b = b'"
    and "\<And>b r. b < length (objects c) \<Longrightarrow> back_reference (objects c ! b) = Some r \<Longrightarrow>
           (byte_offset r \<noteq> None) =
           (r \<in> set (duplicate_references c) \<or> (\<exists>N\<in>L. object_number r = Some N))"
    and "\<And>r. r \<in> set (duplicate_references c) \<Longrightarrow>
           \<exists>b<length (objects c). back_reference (objects c ! b) = Some r"
    and "distinct (duplicate_references c)"
    and "\<And>N. object_headers N (destination c) =
           (if N \<notin> L \<and> (\<exists>r\<in>set (duplicate_references c). object_number r = Some N)
            then 1 else 0)"
    and "\<And>N. N \<in> L \<Longrightarrow> \<exists>b<length (objects c). \<exists>r.
           back_reference (objects c ! b) = Some r \<and> object_number r = Some N"
  shows "pass_inv L c"
proof -
  have "refs_numbered c" unfolding refs_numbered_def using assms(1) by blast
  moreover have "refs_distinct c" unfolding refs_distinct_def using assms(2) by blast
  moreover have "located_iff_listed L c" unfolding located_iff_listed_def using assms(3) by blast
  moreover have "listed_owned c" unfolding listed_owned_def using assms(4) by blast
  moreover have "headers_once L c" unfolding headers_once_def using assms(5,6) by blast
  moreover have "located_owned L c" unfolding located_owned_def using assms(7) by blast
  ultimately show ?thesis by (simp add: pass_inv_def)
qed

lemma pass_inv_append_chunks:
  assumes "pass_inv L c" and "\<forall>ch\<in>set chunks. \<forall>N. \<not> header_of N ch"
  shows "pass_inv L (c\<lparr>destination := destination c @ chunks\<rparr>)"
proof -
  have "object_headers N chunks = 0" for N
    using assms(2) by (induction chunks) simp_all
  with assms(1) show ?thesis
    unfolding pass_inv_def refs_numbered_def refs_distinct_def located_iff_listed_def
      listed_owned_def headers_once_def located_owned_def
    by simp
qed

lemma pass_inv_destination_write:
  assumes "pass_inv L c" and "\<forall>N. \<not> header_of N ch"
  shows "pass_inv L (destination_write ch c)"
  using pass_inv_append_chunks[OF assms(1), of "[ch]"] assms(2)
  by (simp add: destination_write_def)

lemma pass_inv_next:
  assumes "pass_inv L c" and "next_object_number c \<le> n"
  shows "pass_inv L (c\<lparr>next_object_number := n\<rparr>)"
proof (rule pass_invI)
  fix b r
  assume "b < length (objects (c\<lparr>next_object_number := n\<rparr>))"
    "back_reference (objects (c\<lparr>next_object_number := n\<rparr>) ! b) = Some r"
  with pass_invD(1)[OF assms(1), of b r] assms(2)
  show "\<exists>m. object_number r = Some m \<and> m < next_object_number (c\<lparr>next_object_number := n\<rparr>)"
    by auto
qed (use pass_invD(2-7)[OF assms(1)] in simp_all)

lemma pass_inv_get_reference:
  assumes inv: "pass_inv L c"
  shows "pass_inv L (snd (get_reference a c))"
proof (cases "numbered c a \<or> \<not> a < length (objects c)")
  case True
  then show ?thesis
  proof
    assume "numbered c a"
    then have "snd (get_reference a c) = c"
      by (auto simp: get_reference_def numbered_def Let_def split: option.splits)
    with inv show ?thesis by simp
  next
    assume "\<not> a < length (objects c)"
    then have "(objects c)[a := x] = objects c" for x
      by (intro list_update_beyond) simp
    then have "snd (get_reference a c) = c \<or>
        snd (get_reference a c) = c\<lparr>next_object_number := next_object_number c + 1\<rparr>"
      by (auto simp: get_reference_def Let_def set_reference_def split: option.splits)
    with inv pass_inv_next[OF inv, of "next_object_number c + 1"] show ?thesis by auto
  qed
next
  case False
  then have a: "a < length (objects c)" and nn: "\<not> numbered c a" by auto
  have none: "back_reference (objects c ! a) = None"
  proof (cases "back_reference (objects c ! a)")
    case (Some r)
    with pass_invD(1)[OF inv a] nn show ?thesis by (auto simp: numbered_def)
  qed simp
  define n where "n = next_object_number c"
  define c' where "c' = (set_reference a (new_reference n) c)\<lparr>next_object_number := n + 1\<rparr>"
  from none have s: "snd (get_reference a c) = c'"
    by (simp add: get_reference_def Let_def c'_def n_def)
  have obj: "back_reference (objects c' ! b) =
      (if b = a then Some (new_reference n) else back_reference (objects c ! b))"
    if "b < length (objects c)" for b
    using that a by (simp add: c'_def set_reference_def)
  have len: "length (objects c') = length (objects c)" by (simp add: c'_def)
  have dup: "duplicate_references c' = duplicate_references c" by (simp add: c'_def)
  have dest: "destination c' = destination c" by (simp add: c'_def)
  have nxt: "next_object_number c' = n + 1" by (simp add: c'_def)
  have fresh: "new_reference n \<notin> set (duplicate_references c)"
  proof
    assume "new_reference n \<in> set (duplicate_references c)"
    from pass_invD(4)[OF inv this] obtain b where "b < length (objects c)"
      "back_reference (objects c ! b) = Some (new_reference n)" by blast
    from pass_invD(1)[OF inv this] show False by (simp add: n_def)
  qed
  have nL: "n \<notin> L" using located_below[OF inv, of n] by (auto simp: n_def)
  have "pass_inv L c'"
  proof (rule pass_invI; unfold len dup dest nxt)
    fix b r assume b: "b < length (objects c)" and r: "back_reference (objects c' ! b) = Some r"
    show "\<exists>m. object_number r = Some m \<and> m < n + 1"
    proof (cases "b = a")
      case True
      with r obj[OF b] show ?thesis by auto
    next
      case False
      with r obj[OF b] pass_invD(1)[OF inv b, of r] show ?thesis by (auto simp: n_def)
    qed
  next
    fix b r assume b: "b < length (objects c)" and r: "back_reference (objects c' ! b) = Some r"
    show "(byte_offset r \<noteq> None) =
        (r \<in> set (duplicate_references c) \<or> (\<exists>N\<in>L. object_number r = Some N))"
    proof (cases "b = a")
      case True
      with r obj[OF b] have "r = new_reference n" by simp
      with fresh nL show ?thesis by (auto simp: new_reference_def)
    next
      case False
      with r obj[OF b] pass_invD(3)[OF inv b, of r] show ?thesis by auto
    qed
  next
    fix b b' r r'
    assume b: "b < length (objects c)" and b': "b' < length (objects c)"
      and h1: "back_reference (objects c' ! b) = Some r"
      and h2: "back_reference (objects c' ! b') = Some r'" and h3: "object_number r = object_number r'"
    note h = conjI[OF h1 conjI[OF h2 h3]]
    show "b = b'"
    proof (rule ccontr)
      assume ne: "b \<noteq> b'"
      show False
      proof (cases "b = a")
        case True
        with ne h obj[OF b] obj[OF b'] have "back_reference (objects c ! b') = Some r'"
          "object_number r' = Some n" by auto
        with pass_invD(1)[OF inv b'] show False by (auto simp: n_def)
      next
        case False
        show False
        proof (cases "b' = a")
          case True
          with ne h obj[OF b] obj[OF b'] have "back_reference (objects c ! b) = Some r"
            "object_number r = Some n" by auto
          with pass_invD(1)[OF inv b] show False by (auto simp: n_def)
        next
          case nb': False
          with False h obj[OF b] obj[OF b'] pass_invD(2)[OF inv b b', of r r'] ne
          show False by auto
        qed
      qed
    qed
  next
    fix r assume r: "r \<in> set (duplicate_references c)"
    from pass_invD(4)[OF inv r] obtain b where b: "b < length (objects c)"
      "back_reference (objects c ! b) = Some r" by blast
    with none have "b \<noteq> a" by auto
    with b obj[OF b(1)] show "\<exists>b<length (objects c). back_reference (objects c' ! b) = Some r"
      by auto
  next
    show "distinct (duplicate_references c)" by (rule pass_invD(5)[OF inv])
  next
    fix N show "object_headers N (destination c) =
        (if N \<notin> L \<and> (\<exists>r\<in>set (duplicate_references c). object_number r = Some N)
         then 1 else 0)"
      by (rule pass_invD(6)[OF inv])
  next
    fix N assume "N \<in> L"
    from pass_invD(7)[OF inv this] obtain b r where b: "b < length (objects c)"
      "back_reference (objects c ! b) = Some r" "object_number r = Some N" by blast
    with none have "b \<noteq> a" by auto
    with b obj[OF b(1)]
    show "\<exists>b<length (objects c). \<exists>r. back_reference (objects c' ! b) = Some r \<and>
        object_number r = Some N" by auto
  qed
  with s show ?thesis by simp
qed

text \<open>
  A reference in \<^verbatim>\<open>duplicate_references\<close> is owned by the one object that carries its
  object number.
\<close>

lemma listed_number_owner:
  assumes inv: "pass_inv L c" and a: "a < length (objects c)"
    and r: "back_reference (objects c ! a) = Some r"
    and x: "x \<in> set (duplicate_references c)" and n: "object_number x = object_number r"
  shows "x = r"
proof -
  from pass_invD(4)[OF inv x] obtain b where b: "b < length (objects c)"
    "back_reference (objects c ! b) = Some x" by blast
  from pass_invD(2)[OF inv b(1) a b(2) r n] b(2) r show ?thesis by simp
qed


subsection \<open>Starting an object and emitting keep the invariant\<close>

text \<open>
  Lines 60 to 63 for an object whose back-reference is not yet in
  \<^verbatim>\<open>duplicate_references\<close> and has no byte offset: the object is started and its
  reference appended.
\<close>

lemma pass_inv_start:
  assumes inv: "pass_inv L c" and a: "a < length (objects c)"
    and r: "back_reference (objects c ! a) = Some r"
    and new: "r \<notin> set (duplicate_references c)"
    and unl: "byte_offset r = None"
  defines "r' \<equiv> r\<lparr>byte_offset := Some (int (length (destination c)))\<rparr>"
  defines "c2 \<equiv> start_object a c"
  shows "back_reference (objects c2 ! a) = Some r'"
    and "pass_inv L (c2\<lparr>duplicate_references := duplicate_references c2 @ [r']\<rparr>)"
    and "destination c2 = destination c @ [StartObject r']"
proof -
  from pass_invD(1)[OF inv a r] obtain m where m: "object_number r = Some m" by blast
  from pass_invD(3)[OF inv a r] new unl m have mL: "m \<notin> L" by auto
  have c2: "c2 = destination_write (StartObject r') (set_reference a r' c)"
    by (simp add: c2_def start_object_def r r'_def Let_def)
  then show "destination c2 = destination c @ [StartObject r']" by simp
  have obj: "back_reference (objects c2 ! b) =
      (if b = a then Some r' else back_reference (objects c ! b))"
    if "b < length (objects c)" for b
    using that a by (simp add: c2 set_reference_def)
  from obj[OF a] show "back_reference (objects c2 ! a) = Some r'" by simp
  define c3 where "c3 = c2\<lparr>duplicate_references := duplicate_references c2 @ [r']\<rparr>"
  have len: "length (objects c3) = length (objects c)" by (simp add: c3_def c2)
  have dup: "duplicate_references c3 = duplicate_references c @ [r']" by (simp add: c3_def c2)
  have dest: "destination c3 = destination c @ [StartObject r']" by (simp add: c3_def c2)
  have nxt: "next_object_number c3 = next_object_number c" by (simp add: c3_def c2)
  have obj3: "back_reference (objects c3 ! b) =
      (if b = a then Some r' else back_reference (objects c ! b))"
    if "b < length (objects c)" for b
    using obj[OF that] by (simp add: c3_def)
  have num': "object_number r' = Some m" by (simp add: r'_def m)
  have nolisted: "object_number x \<noteq> Some m" if "x \<in> set (duplicate_references c)" for x
  proof
    assume "object_number x = Some m"
    with listed_number_owner[OF inv a r that] m new that show False by simp
  qed
  then have r'new: "r' \<notin> set (duplicate_references c)" using num' by blast
  have "pass_inv L c3"
  proof (rule pass_invI; unfold len dup dest nxt)
    fix b x assume b: "b < length (objects c)" and x: "back_reference (objects c3 ! b) = Some x"
    show "\<exists>k. object_number x = Some k \<and> k < next_object_number c"
    proof (cases "b = a")
      case True
      with x obj3[OF b] pass_invD(1)[OF inv a r] num' m show ?thesis by auto
    next
      case False
      with x obj3[OF b] pass_invD(1)[OF inv b, of x] show ?thesis by auto
    qed
  next
    fix b x assume b: "b < length (objects c)" and x: "back_reference (objects c3 ! b) = Some x"
    show "(byte_offset x \<noteq> None) =
        (x \<in> set (duplicate_references c @ [r']) \<or> (\<exists>N\<in>L. object_number x = Some N))"
    proof (cases "b = a")
      case True
      with x obj3[OF b] show ?thesis by (auto simp: r'_def)
    next
      case False
      with x obj3[OF b] have xb: "back_reference (objects c ! b) = Some x" by simp
      have "x \<noteq> r'"
      proof
        assume "x = r'"
        with pass_invD(2)[OF inv b a xb r] num' m False show False by simp
      qed
      with pass_invD(3)[OF inv b xb] show ?thesis by simp
    qed
  next
    fix b b' x x'
    assume b: "b < length (objects c)" and b': "b' < length (objects c)"
      and h1: "back_reference (objects c3 ! b) = Some x"
      and h2: "back_reference (objects c3 ! b') = Some x'"
      and h3: "object_number x = object_number x'"
    have orig: "\<exists>y. back_reference (objects c ! d) = Some y \<and> object_number y = object_number z"
      if "d < length (objects c)" "back_reference (objects c3 ! d) = Some z" for d z
    proof (cases "d = a")
      case True
      with that obj3[OF that(1)] r num' m show ?thesis by auto
    next
      case False
      with that obj3[OF that(1)] show ?thesis by auto
    qed
    from orig[OF b h1] obtain y where y: "back_reference (objects c ! b) = Some y"
      "object_number y = object_number x" by blast
    from orig[OF b' h2] obtain y' where y': "back_reference (objects c ! b') = Some y'"
      "object_number y' = object_number x'" by blast
    from pass_invD(2)[OF inv b b' y(1) y'(1)] y(2) y'(2) h3 show "b = b'" by simp
  next
    fix x assume "x \<in> set (duplicate_references c @ [r'])"
    then consider "x \<in> set (duplicate_references c)" | "x = r'" by auto
    then show "\<exists>b<length (objects c). back_reference (objects c3 ! b) = Some x"
    proof cases
      case 1
      from pass_invD(4)[OF inv 1] obtain b where b: "b < length (objects c)"
        "back_reference (objects c ! b) = Some x" by blast
      with r new 1 have "b \<noteq> a" by auto
      with b obj3[OF b(1)] show ?thesis by auto
    next
      case 2
      with obj3[OF a] a show ?thesis by auto
    qed
  next
    show "distinct (duplicate_references c @ [r'])"
      using pass_invD(5)[OF inv] r'new by simp
  next
    fix N
    show "object_headers N (destination c @ [StartObject r']) =
        (if N \<notin> L \<and> (\<exists>x\<in>set (duplicate_references c @ [r']). object_number x = Some N)
         then 1 else 0)"
    proof (cases "N = m")
      case True
      with nolisted have "\<not> (\<exists>x\<in>set (duplicate_references c). object_number x = Some N)" by blast
      with pass_invD(6)[OF inv, of N] have "object_headers N (destination c) = 0" by simp
      with True mL num' show ?thesis by simp
    next
      case False
      with pass_invD(6)[OF inv, of N] num' show ?thesis by simp
    qed
  next
    fix N assume "N \<in> L"
    from pass_invD(7)[OF inv this] obtain b x where b: "b < length (objects c)"
      "back_reference (objects c ! b) = Some x" "object_number x = Some N" by blast
    show "\<exists>b<length (objects c). \<exists>r. back_reference (objects c3 ! b) = Some r \<and>
        object_number r = Some N"
    proof (cases "b = a")
      case True
      with b r num' m obj3[OF a] a show ?thesis by auto
    next
      case False
      with b obj3[OF b(1)] show ?thesis by auto
    qed
  qed
  then show "pass_inv L (c2\<lparr>duplicate_references := duplicate_references c2 @ [r']\<rparr>)"
    by (simp add: c3_def)
qed

text \<open>
  Lines 60 to 63 for an object whose back-reference is not yet in
  \<^verbatim>\<open>duplicate_references\<close> and has a byte offset: the reference is appended, and
  nothing is written.
\<close>

lemma pass_inv_list_located:
  assumes inv: "pass_inv L c" and a: "a < length (objects c)"
    and r: "back_reference (objects c ! a) = Some r"
    and new: "r \<notin> set (duplicate_references c)"
    and loc: "byte_offset r \<noteq> None"
  shows "pass_inv L (c\<lparr>duplicate_references := duplicate_references c @ [r]\<rparr>)"
proof -
  from pass_invD(1)[OF inv a r] obtain m where m: "object_number r = Some m" by blast
  from pass_invD(3)[OF inv a r] new loc m have mL: "m \<in> L" by auto
  define c3 where "c3 = c\<lparr>duplicate_references := duplicate_references c @ [r]\<rparr>"
  have len: "length (objects c3) = length (objects c)" by (simp add: c3_def)
  have dup: "duplicate_references c3 = duplicate_references c @ [r]" by (simp add: c3_def)
  have dest: "destination c3 = destination c" by (simp add: c3_def)
  have nxt: "next_object_number c3 = next_object_number c" by (simp add: c3_def)
  have obj3: "objects c3 = objects c" by (simp add: c3_def)
  have "pass_inv L c3"
  proof (rule pass_invI; unfold len dup dest nxt obj3)
    fix b x assume "b < length (objects c)" "back_reference (objects c ! b) = Some x"
    from pass_invD(1)[OF inv this]
    show "\<exists>k. object_number x = Some k \<and> k < next_object_number c" .
  next
    fix b x assume b: "b < length (objects c)" and x: "back_reference (objects c ! b) = Some x"
    show "(byte_offset x \<noteq> None) =
        (x \<in> set (duplicate_references c @ [r]) \<or> (\<exists>N\<in>L. object_number x = Some N))"
    proof (cases "x = r")
      case True
      with loc show ?thesis by simp
    next
      case False
      with pass_invD(3)[OF inv b x] show ?thesis by simp
    qed
  next
    fix b b' x x'
    assume "b < length (objects c)" "b' < length (objects c)"
      "back_reference (objects c ! b) = Some x" "back_reference (objects c ! b') = Some x'"
      "object_number x = object_number x'"
    from pass_invD(2)[OF inv this] show "b = b'" .
  next
    fix x assume "x \<in> set (duplicate_references c @ [r])"
    then consider "x \<in> set (duplicate_references c)" | "x = r" by auto
    then show "\<exists>b<length (objects c). back_reference (objects c ! b) = Some x"
    proof cases
      case 1
      from pass_invD(4)[OF inv 1] show ?thesis .
    next
      case 2
      with a r show ?thesis by auto
    qed
  next
    show "distinct (duplicate_references c @ [r])"
      using pass_invD(5)[OF inv] new by simp
  next
    fix N
    show "object_headers N (destination c) =
        (if N \<notin> L \<and> (\<exists>x\<in>set (duplicate_references c @ [r]). object_number x = Some N)
         then 1 else 0)"
    proof (cases "N = m")
      case True
      with pass_invD(6)[OF inv, of N] mL show ?thesis by simp
    next
      case False
      with pass_invD(6)[OF inv, of N] m show ?thesis by simp
    qed
  next
    fix N assume "N \<in> L"
    from pass_invD(7)[OF inv this]
    show "\<exists>b<length (objects c). \<exists>r. back_reference (objects c ! b) = Some r \<and>
        object_number r = Some N" .
  qed
  then show ?thesis by (simp add: c3_def)
qed

lemma closed_same_contents:
  assumes "map content (objects c') = map content (objects c)" and "closed c"
  shows "closed c'"
proof -
  from assms(1) have len: "length (objects c') = length (objects c)"
    by (rule map_eq_imp_length_eq)
  have "content (objects c' ! b) = content (objects c ! b)" if "b < length (objects c)" for b
  proof -
    have "content (objects c' ! b) = map content (objects c') ! b" using that len by simp
    also have "\<dots> = content (objects c ! b)" using that assms(1) by simp
    finally show ?thesis .
  qed
  with assms(2) len show ?thesis unfolding closed_def by simp
qed

lemma transform_queue_pass_inv:
  assumes root: "keeps_inv L root" and same: "results_in same_contents root"
  shows "pass_inv L c \<Longrightarrow> closed c \<Longrightarrow>
    \<forall>v\<in>set queue. \<forall>b. v = Composite b \<longrightarrow> b < length (objects c) \<Longrightarrow>
    transform_queue root queue c = Some c' \<Longrightarrow> text_closed (destination c) \<Longrightarrow>
    pass_inv L c' \<and> text_closed (destination c')"
proof (induction queue arbitrary: c)
  case Nil
  then show ?case by simp
next
  case (Cons e queue)
  from Cons.prems(4) obtain c1 where e: "root e c = Some c1"
    and rest: "transform_queue root queue c1 = Some c'"
    by (auto split: option.splits)
  from Cons.prems(3) have ve: "\<forall>b. e = Composite b \<longrightarrow> b < length (objects c)" by simp
  from root Cons.prems(1,2,5) ve e have i1: "pass_inv L c1" and t1: "text_closed (destination c1)"
    unfolding keeps_inv_def by blast+
  from same e have m: "map content (objects c1) = map content (objects c)"
    by (auto simp: results_in_def same_contents_def)
  then have len: "length (objects c1) = length (objects c)" by (rule map_eq_imp_length_eq)
  from closed_same_contents[OF m Cons.prems(2)] have c1: "closed c1" .
  from Cons.prems(3) len
  have "\<forall>v\<in>set queue. \<forall>b. v = Composite b \<longrightarrow> b < length (objects c1)" by simp
  from Cons.IH[OF i1 c1 this rest t1] show ?case .
qed

text \<open>
  The state in which \<open>emit\<close> turns to the queue, when it has not returned at once: the
  invariant holds, and the destination has received the body, between \<^verbatim>\<open>N G obj\<close> and
  \<^verbatim>\<open>endobj\<close> when the object has a back-reference without a byte offset.
\<close>

lemma emit_before_queue:
  assumes body: "\<And>c c'. write_body c = Some c' \<Longrightarrow>
                     c' = c\<lparr>destination := destination c @ chunks\<rparr>"
    and pl: "\<forall>ch\<in>set chunks. plain ch"
    and inv: "pass_inv L ctx" and a: "a < length (objects ctx)"
    and e: "emit root a write_body queue ctx = Some (True, ctx')"
  shows "\<exists>ctx5 pre post.
      transform_queue root queue ctx5 = Some ctx' \<and> pass_inv L ctx5 \<and>
      map content (objects ctx5) = map content (objects ctx) \<and>
      next_object_number ctx5 = next_object_number ctx \<and>
      destination ctx5 = destination ctx @ pre @ chunks @ post \<and>
      (text_closed (destination ctx) \<longrightarrow> text_closed (destination ctx5)) \<and>
      (\<forall>b. b \<noteq> a \<longrightarrow> back_reference (objects ctx5 ! b) = back_reference (objects ctx ! b)) \<and>
      (case back_reference (objects ctx ! a) of
         None \<Rightarrow> pre = [] \<and> post = [] \<and> ctx5 = ctx\<lparr>destination := destination ctx @ chunks\<rparr>
       | Some r \<Rightarrow>
           r \<notin> set (duplicate_references ctx) \<and>
           (if byte_offset r = None
            then (let r' = r\<lparr>byte_offset := Some (int (length (destination ctx)))\<rparr>
                  in pre = [StartObject r'] \<and> post = [EndObject] \<and>
                     back_reference (objects ctx5 ! a) = Some r' \<and>
                     duplicate_references ctx5 = duplicate_references ctx @ [r'])
            else pre = [] \<and> post = [] \<and>
                 back_reference (objects ctx5 ! a) = Some r \<and>
                 duplicate_references ctx5 = duplicate_references ctx @ [r]))"
proof -
  define started where "started = (case back_reference (objects ctx ! a) of None \<Rightarrow> False
                | Some r \<Rightarrow> object_number r \<noteq> None \<and> byte_offset r = None)"
  define ctx2 where "ctx2 = (if started then start_object a ctx else ctx)"
  define ctx3 where "ctx3 = (case back_reference (objects ctx2 ! a) of
                  None \<Rightarrow> ctx2
                | Some r \<Rightarrow> ctx2\<lparr>duplicate_references := duplicate_references ctx2 @ [r]\<rparr>)"
  from e obtain ctx4 where
    fresh: "case back_reference (objects ctx ! a) of None \<Rightarrow> True
       | Some r \<Rightarrow> r \<notin> set (duplicate_references ctx)" and
    w: "write_body ctx3 = Some ctx4" and
    qq: "transform_queue root queue (if started then end_object a ctx4 else ctx4) = Some ctx'"
    unfolding started_def ctx2_def ctx3_def by (auto elim!: emit_TrueE simp: Let_def)
  from body[OF w] have c4: "ctx4 = ctx3\<lparr>destination := destination ctx3 @ chunks\<rparr>" .
  have nh: "\<forall>ch\<in>set chunks. \<forall>N. \<not> header_of N ch" using pl plain_no_header by blast
  define ctx5 where "ctx5 = (if started then end_object a ctx4 else ctx4)"
  from qq have q5: "transform_queue root queue ctx5 = Some ctx'" by (simp add: ctx5_def)
  show ?thesis
  proof (cases "back_reference (objects ctx ! a)")
    case None
    then have ns: "\<not> started" by (simp add: started_def)
    with None have c3: "ctx3 = ctx" by (simp add: ctx3_def ctx2_def)
    with ns have c5: "ctx5 = ctx\<lparr>destination := destination ctx @ chunks\<rparr>"
      by (simp add: ctx5_def c4)
    from pass_inv_append_chunks[OF inv nh] have "pass_inv L ctx5" by (simp add: c5)
    moreover have "destination ctx5 = destination ctx @ [] @ chunks @ []" by (simp add: c5)
    moreover have "text_closed (destination ctx) \<longrightarrow> text_closed (destination ctx5)"
      using text_closed_append[OF _ text_closed_plain[OF pl]] by (simp add: c5)
    moreover have "map content (objects ctx5) = map content (objects ctx)"
      "next_object_number ctx5 = next_object_number ctx"
      "\<forall>b. b \<noteq> a \<longrightarrow> back_reference (objects ctx5 ! b) = back_reference (objects ctx ! b)"
      by (simp_all add: c5)
    ultimately show ?thesis using q5 None c5
      by (intro exI[of _ ctx5] exI[of _ "[]"]) simp
  next
    case (Some r)
    with fresh have new: "r \<notin> set (duplicate_references ctx)" by simp
    from pass_invD(1)[OF inv a Some] have num: "object_number r \<noteq> None" by auto
    show ?thesis
    proof (cases "byte_offset r = None")
      case True
      define r' where "r' = r\<lparr>byte_offset := Some (int (length (destination ctx)))\<rparr>"
      from True num Some have st: "started" by (simp add: started_def)
      then have c2: "ctx2 = start_object a ctx" by (simp add: ctx2_def)
      note ps = pass_inv_start[OF inv a Some new True, folded r'_def c2]
      from ps(1) have c3: "ctx3 = ctx2\<lparr>duplicate_references := duplicate_references ctx2 @ [r']\<rparr>"
        by (simp add: ctx3_def)
      with ps(2) have i3: "pass_inv L ctx3" by simp
      have d3: "destination ctx3 = destination ctx @ [StartObject r']" by (simp add: c3 ps(3))
      have c5: "ctx5 = end_object a (ctx3\<lparr>destination := destination ctx3 @ chunks\<rparr>)"
        using st by (simp add: ctx5_def c4)
      have i5: "pass_inv L ctx5"
        unfolding c5 end_object_def
        by (rule pass_inv_destination_write[OF pass_inv_append_chunks[OF i3 nh]]) simp
      have d5: "destination ctx5 = destination ctx @ [StartObject r'] @ chunks @ [EndObject]"
        by (simp add: c5 d3)
      have o5: "objects ctx5 = objects ctx2" by (simp add: c5 c3)
      have m5: "map content (objects ctx5) = map content (objects ctx)"
        by (simp add: o5 c2 start_object_def Let_def Some)
      have n5: "next_object_number ctx5 = next_object_number ctx"
        by (simp add: c5 c3 c2 start_object_def Let_def Some)
      have u5: "duplicate_references ctx5 = duplicate_references ctx @ [r']"
        by (simp add: c5 c3 c2 start_object_def Let_def Some)
      have b5: "back_reference (objects ctx5 ! a) = Some r'" by (simp add: o5 ps(1))
      have oth: "\<forall>b. b \<noteq> a \<longrightarrow> back_reference (objects ctx5 ! b) = back_reference (objects ctx ! b)"
        by (simp add: o5 c2 start_object_def Let_def Some set_reference_def)
      have t5: "text_closed (destination ctx) \<longrightarrow> text_closed (destination ctx5)"
        unfolding d5 using text_closed_append[OF _ text_closed_object[OF pl]] by blast
      from q5 i5 m5 n5 d5 t5 oth Some new True b5 u5 show ?thesis
        by (intro exI[of _ ctx5] exI[of _ "[StartObject r']"] exI[of _ "[EndObject]"])
          (simp add: r'_def Let_def)
    next
      case False
      with Some have ns: "\<not> started" by (simp add: started_def)
      with Some have c3: "ctx3 = ctx\<lparr>duplicate_references := duplicate_references ctx @ [r]\<rparr>"
        by (simp add: ctx3_def ctx2_def)
      from pass_inv_list_located[OF inv a Some new False] have i3: "pass_inv L ctx3"
        by (simp add: c3)
      have c5: "ctx5 = ctx3\<lparr>destination := destination ctx3 @ chunks\<rparr>"
        using ns by (simp add: ctx5_def c4)
      from pass_inv_append_chunks[OF i3 nh] have i5: "pass_inv L ctx5" by (simp add: c5)
      have t5: "text_closed (destination ctx) \<longrightarrow> text_closed (destination ctx5)"
        using text_closed_append[OF _ text_closed_plain[OF pl]] by (simp add: c5 c3)
      from q5 i5 t5 Some new False show ?thesis
        by (intro exI[of _ ctx5] exI[of _ "[]"] exI[of _ "[]"]) (simp add: c5 c3)
    qed
  qed
qed

lemma emit_pass_inv:
  assumes root: "keeps_inv L root" and same: "results_in same_contents root"
    and body: "\<And>c c'. write_body c = Some c' \<Longrightarrow>
                 c' = c\<lparr>destination := destination c @ chunks\<rparr>"
    and pl: "\<forall>ch\<in>set chunks. plain ch"
    and inv: "pass_inv L ctx" and tc: "text_closed (destination ctx)"
    and cl: "closed ctx" and a: "a < length (objects ctx)"
    and q: "\<forall>v\<in>set queue. \<forall>b. v = Composite b \<longrightarrow> b < length (objects ctx)"
    and e: "emit root a write_body queue ctx = Some (emitted, ctx')"
  shows "pass_inv L ctx' \<and> text_closed (destination ctx')"
proof (cases emitted)
  case False
  with e have "ctx' = ctx" by (auto dest: emit_FalseD)
  with inv tc show ?thesis by simp
next
  case True
  with e have "emit root a write_body queue ctx = Some (True, ctx')" by simp
  from emit_before_queue[OF body pl inv a this] tc obtain ctx5 where
    q5: "transform_queue root queue ctx5 = Some ctx'" and i5: "pass_inv L ctx5"
    and m5: "map content (objects ctx5) = map content (objects ctx)"
    and t5: "text_closed (destination ctx5)"
    by blast
  from m5 have len: "length (objects ctx5) = length (objects ctx)" by (rule map_eq_imp_length_eq)
  from closed_same_contents[OF m5 cl] have c5: "closed ctx5" .
  from q len have qv: "\<forall>v\<in>set queue. \<forall>b. v = Composite b \<longrightarrow> b < length (objects ctx5)"
    by simp
  from transform_queue_pass_inv[OF root same i5 c5 qv q5 t5] show ?thesis .
qed

subsection \<open>The root transformer keeps the invariant\<close>

lemma pass_inv_elements:
  "elements_to_references vs out queue ctx = (out', queue', ctx') \<Longrightarrow> pass_inv L ctx \<Longrightarrow>
   pass_inv L ctx'"
  by (rule elements_rel[where R = "\<lambda>c c'. pass_inv L c \<longrightarrow> pass_inv L c'", THEN mp])
    (auto intro: pass_inv_get_reference)

lemma pass_inv_to_references:
  assumes "to_references kvs out queue ctx = (out', queue', ctx')" and "pass_inv L ctx"
  shows "pass_inv L ctx'"
  using loops_agree[OF assms(1), of "[]"] pass_inv_elements assms(2) by blast

lemma same_contents_elements:
  "elements_to_references vs out queue ctx = (out', queue', ctx') \<Longrightarrow>
   map content (objects ctx') = map content (objects ctx)"
  using rel_elements_to_references[OF step_closed_same_contents]
  by (simp add: same_contents_def)

lemma same_contents_to_references:
  "to_references kvs out queue ctx = (out', queue', ctx') \<Longrightarrow>
   map content (objects ctx') = map content (objects ctx)"
  using rel_to_references[OF step_closed_same_contents]
  by (simp add: same_contents_def)

lemma queue_valid:
  assumes "closed c" and "a < length (objects c)"
    and "queue = filter (\<lambda>v. composite_address v \<noteq> None) (children (content (objects c ! a)))"
    and "length (objects c1) = length (objects c)"
  shows "\<forall>v\<in>set queue. \<forall>b. v = Composite b \<longrightarrow> b < length (objects c1)"
  using assms unfolding closed_def by auto

lemma to_references_no_composite:
  "to_references kvs out queue ctx = (out', queue', ctx') \<Longrightarrow>
   \<forall>kv\<in>set out. composite_address (snd kv) = None \<Longrightarrow>
   \<forall>kv\<in>set out'. composite_address (snd kv) = None"
proof (induction kvs arbitrary: out queue ctx)
  case Nil
  then show ?case by simp
next
  case (Cons kv kvs)
  obtain k v where kv: "kv = (k, v)" by (cases kv)
  have sub: "set (dict_set k w out) \<subseteq> insert (k, w) (set out)" for w out
    by (induction out) (auto split: if_splits)
  have ds: "\<forall>kv\<in>set (dict_set k w out). composite_address (snd kv) = None"
    if "composite_address w = None" "\<forall>kv\<in>set out. composite_address (snd kv) = None" for w out
  proof
    fix kv assume "kv \<in> set (dict_set k w out)"
    with sub[of w out] have "kv = (k, w) \<or> kv \<in> set out" by blast
    with that show "composite_address (snd kv) = None" by auto
  qed
  show ?case
  proof (cases "composite_address v")
    case None
    with Cons.prems kv have "to_references kvs (dict_set k v out) queue ctx = (out', queue', ctx')"
      by simp
    from Cons.IH[OF this ds[OF None Cons.prems(2)]] show ?thesis .
  next
    case (Some a)
    obtain r ctx1 where g: "get_reference a ctx = (r, ctx1)" by (cases "get_reference a ctx")
    with Cons.prems kv Some
    have t: "to_references kvs (dict_set k (Indirect r) out) (queue @ [v]) ctx1 = (out', queue', ctx')"
      by simp
    have "composite_address (Indirect r) = None" by simp
    from Cons.IH[OF t ds[OF this Cons.prems(2)]] show ?thesis .
  qed
qed

lemma transform_pass_inv:
  assumes root: "keeps_inv L (root_transform n)"
    and inv: "pass_inv L ctx" and tc: "text_closed (destination ctx)"
    and cl: "closed ctx" and a: "a < length (objects ctx)"
    and d: "content (objects ctx ! a) = Dictionary kvs"
    and t: "transform (root_transform n) a kvs ctx = Some (ret, ctx')"
  shows "pass_inv L ctx' \<and> text_closed (destination ctx')"
proof -
  obtain out queue ctx1 where l: "to_references kvs [] [] ctx = (out, queue, ctx1)"
    by (cases "to_references kvs [] [] ctx") auto
  with t obtain b where
    e: "emit (root_transform n) a (write_dictionary (root_transform n) out) queue ctx1 = Some (b, ctx')"
    by (auto simp: transform_def split: option.splits)
  note m = same_contents_to_references[OF l]
  then have len: "length (objects ctx1) = length (objects ctx)" by (rule map_eq_imp_length_eq)
  from to_references_queue[OF l] d
  have "queue = filter (\<lambda>v. composite_address v \<noteq> None) (children (content (objects ctx ! a)))"
    by simp
  from queue_valid[OF cl a this len]
  have q: "\<forall>v\<in>set queue. \<forall>b. v = Composite b \<longrightarrow> b < length (objects ctx1)" .
  from to_references_no_composite[OF l]
  have nc: "\<forall>kv\<in>set out. composite_address (snd kv) = None" by simp
  from to_references_assigns_only[OF l] tc have t1: "text_closed (destination ctx1)"
    by (simp add: assigns_only_def)
  from a len have a1: "a < length (objects ctx1)" by simp
  show ?thesis
    by (rule emit_pass_inv[OF root results_in_root_transform[OF step_closed_same_contents]
          write_dictionary_chunks[OF nc] dictionary_chunks_plain pass_inv_to_references[OF l inv]
          t1 closed_same_contents[OF m cl] a1 q e])
qed

lemma transform_other_pass_inv:
  assumes root: "keeps_inv L (root_transform n)"
    and inv: "pass_inv L ctx" and tc: "text_closed (destination ctx)"
    and cl: "closed ctx" and a: "a < length (objects ctx)"
    and d: "content (objects ctx ! a) = c"
    and t: "transform_other (root_transform n) a c ctx = Some ctx'"
  shows "pass_inv L ctx' \<and> text_closed (destination ctx')"
proof -
  obtain out queue ctx1 where l: "elements_to_references (children c) [] [] ctx = (out, queue, ctx1)"
    by (cases "elements_to_references (children c) [] [] ctx") auto
  with t obtain b where
    e: "emit (root_transform n) a (\<lambda>ctx'. Some (destination_write (Body (with_children c out)) ctx'))
          queue ctx1 = Some (b, ctx')"
    by (auto simp: transform_other_def)
  note m = same_contents_elements[OF l]
  then have len: "length (objects ctx1) = length (objects ctx)" by (rule map_eq_imp_length_eq)
  from elements_queue[OF l] d
  have "queue = filter (\<lambda>v. composite_address v \<noteq> None) (children (content (objects ctx ! a)))"
    by simp
  from queue_valid[OF cl a this len]
  have q: "\<forall>v\<in>set queue. \<forall>b. v = Composite b \<longrightarrow> b < length (objects ctx1)" .
  from elements_assigns_only[OF l] tc have t1: "text_closed (destination ctx1)"
    by (simp add: assigns_only_def)
  have body: "c2 = c1\<lparr>destination := destination c1 @ [Body (with_children c out)]\<rparr>"
    if "(\<lambda>ctx'. Some (destination_write (Body (with_children c out)) ctx')) c1 = Some c2" for c1 c2
    using that by (auto simp: destination_write_def)
  from a len have a1: "a < length (objects ctx1)" by simp
  have pl: "\<forall>ch\<in>set [Body (with_children c out)]. plain ch" by simp
  show ?thesis
    by (rule emit_pass_inv[OF root results_in_root_transform[OF step_closed_same_contents]
          body pl pass_inv_elements[OF l inv] t1 closed_same_contents[OF m cl] a1 q e])
qed

lemma keeps_inv_root_transform: "keeps_inv L (root_transform n)"
proof (induction n)
  case 0
  show ?case by (simp add: keeps_inv_def)
next
  case (Suc n)
  show ?case
    unfolding keeps_inv_def
  proof (intro allI impI)
    fix v c c'
    assume inv: "pass_inv L c" and tc: "text_closed (destination c)" and cl: "closed c"
      and valid: "\<forall>b. v = Composite b \<longrightarrow> b < length (objects c)"
      and r: "root_transform (Suc n) v c = Some c'"
    from r show "pass_inv L c' \<and> text_closed (destination c')"
    proof (cases rule: root_transform_cases)
      case leaf
      define ch where "ch = (case v of Indirect r \<Rightarrow> IndirectRef r | _ \<Rightarrow> Leaf v)"
      have p: "plain ch" by (cases v) (simp_all add: ch_def)
      then have "\<forall>N. \<not> header_of N ch" by (simp add: plain_no_header)
      from pass_inv_destination_write[OF inv this] leaf(2) have "pass_inv L c'"
        by (simp add: ch_def)
      moreover from text_closed_append[OF tc text_closed_plain[of "[ch]"]] p leaf(2)
      have "text_closed (destination c')" by (simp add: ch_def)
      ultimately show ?thesis ..
    next
      case (dictionary a kvs ret)
      with valid have "a < length (objects c)" by simp
      from transform_pass_inv[OF Suc inv tc cl this dictionary(2,3)] show ?thesis .
    next
      case (other a)
      with valid have "a < length (objects c)" by simp
      from transform_other_pass_inv[OF Suc inv tc cl this refl other(3)] show ?thesis .
    qed
  qed
qed

text \<open>The invariant at the end of a pass.\<close>

lemma pass_inv_root_transform:
  assumes "pass_inv L c" and "text_closed (destination c)" and "closed c"
    and "a < length (objects c)" and "root_transform n (Composite a) c = Some c'"
  shows "pass_inv L c'" and "text_closed (destination c')"
  using keeps_inv_root_transform[of L n] assms unfolding keeps_inv_def by blast+

lemma pass_inv_new_context:
  assumes "\<forall>b<length objs. \<forall>r. back_reference (objs ! b) = Some r \<longrightarrow>
             (\<exists>m. object_number r = Some m \<and> m < n)"
    and "\<forall>b<length objs. \<forall>b'<length objs. \<forall>r r'.
           back_reference (objs ! b) = Some r \<and> back_reference (objs ! b') = Some r' \<and>
           object_number r = object_number r' \<longrightarrow> b = b'"
  defines "L \<equiv> {N. \<exists>b<length objs. \<exists>r. back_reference (objs ! b) = Some r \<and>
                 object_number r = Some N \<and> byte_offset r \<noteq> None}"
  shows "pass_inv L (new_context objs n)"
proof (rule pass_invI)
  fix b b' r r'
  assume "b < length (objects (new_context objs n))" "b' < length (objects (new_context objs n))"
    "back_reference (objects (new_context objs n) ! b) = Some r"
    "back_reference (objects (new_context objs n) ! b') = Some r'"
    "object_number r = object_number r'"
  with assms(2) show "b = b'" unfolding new_context_def by simp
next
  fix b r
  assume b: "b < length (objects (new_context objs n))"
    and r: "back_reference (objects (new_context objs n) ! b) = Some r"
  with assms(1) obtain m where m: "object_number r = Some m" by (auto simp: new_context_def)
  show "(byte_offset r \<noteq> None) =
      (r \<in> set (duplicate_references (new_context objs n)) \<or> (\<exists>N\<in>L. object_number r = Some N))"
  proof
    assume "byte_offset r \<noteq> None"
    with b r m have "m \<in> L" unfolding L_def new_context_def by auto
    with m show "r \<in> set (duplicate_references (new_context objs n)) \<or>
        (\<exists>N\<in>L. object_number r = Some N)" by simp
  next
    assume "r \<in> set (duplicate_references (new_context objs n)) \<or> (\<exists>N\<in>L. object_number r = Some N)"
    with m have "m \<in> L" by (auto simp: new_context_def)
    then obtain b' r' where b': "b' < length objs" "back_reference (objs ! b') = Some r'"
      "object_number r' = Some m" "byte_offset r' \<noteq> None" unfolding L_def by blast
    with assms(2) b r m have "b' = b" unfolding new_context_def by auto
    with b' r show "byte_offset r \<noteq> None" by (simp add: new_context_def)
  qed
next
  fix N assume "N \<in> L"
  then show "\<exists>b<length (objects (new_context objs n)). \<exists>r.
      back_reference (objects (new_context objs n) ! b) = Some r \<and> object_number r = Some N"
    unfolding L_def new_context_def by auto
qed (use assms(1) in \<open>auto simp: new_context_def\<close>)

subsection \<open>The number of objects that are still to be emitted\<close>

lemma unlisted_iff:
  "unlisted c b \<longleftrightarrow>
     (\<forall>r. back_reference (objects c ! b) = Some r \<longrightarrow> r \<notin> set (duplicate_references c))"
  by (simp add: unlisted_def split: option.splits)

lemma pending_cong:
  assumes "length (objects c') = length (objects c)"
    and "\<And>b. b < length (objects c) \<Longrightarrow> unlisted c' b = unlisted c b"
  shows "pending c' = pending c"
proof -
  have "{b. b < length (objects c') \<and> unlisted c' b} = {b. b < length (objects c) \<and> unlisted c b}"
    using assms by auto
  then show ?thesis by (simp add: pending_def)
qed

lemma pending_destination [simp]:
  "pending (c\<lparr>destination := d\<rparr>) = pending c"
  by (rule pending_cong) (simp_all add: unlisted_iff)

lemma pending_destination_write [simp]: "pending (destination_write ch c) = pending c"
  by (simp add: destination_write_def)

lemma pending_bound: "pending c \<le> length (objects c)"
proof -
  have "card {b. b < length (objects c) \<and> unlisted c b} \<le> card {..<length (objects c)}"
    by (rule card_mono) auto
  then show ?thesis by (simp add: pending_def)
qed

lemma fresh_not_listed:
  assumes "pass_inv L c"
  shows "new_reference (next_object_number c) \<notin> set (duplicate_references c)"
proof
  assume "new_reference (next_object_number c) \<in> set (duplicate_references c)"
  from pass_invD(4)[OF assms this] obtain b where "b < length (objects c)"
    "back_reference (objects c ! b) = Some (new_reference (next_object_number c))" by blast
  from pass_invD(1)[OF assms this] show False by simp
qed

lemma pending_get_reference:
  assumes inv: "pass_inv L c"
  shows "pending (snd (get_reference a c)) = pending c"
proof (cases "numbered c a \<or> \<not> a < length (objects c)")
  case True
  then show ?thesis
  proof
    assume "numbered c a"
    then have "snd (get_reference a c) = c"
      by (auto simp: get_reference_def numbered_def Let_def split: option.splits)
    then show ?thesis by simp
  next
    assume "\<not> a < length (objects c)"
    then have "(objects c)[a := x] = objects c" for x
      by (intro list_update_beyond) simp
    then have "snd (get_reference a c) = c \<or>
        snd (get_reference a c) = c\<lparr>next_object_number := next_object_number c + 1\<rparr>"
      by (auto simp: get_reference_def Let_def set_reference_def split: option.splits)
    moreover have "pending (c\<lparr>next_object_number := next_object_number c + 1\<rparr>) = pending c"
      by (rule pending_cong) (simp_all add: unlisted_iff)
    ultimately show ?thesis by auto
  qed
next
  case False
  then have a: "a < length (objects c)" and nn: "\<not> numbered c a" by auto
  have none: "back_reference (objects c ! a) = None"
  proof (cases "back_reference (objects c ! a)")
    case (Some r)
    with pass_invD(1)[OF inv a] nn show ?thesis by (auto simp: numbered_def)
  qed simp
  define n where "n = next_object_number c"
  define c' where "c' = (set_reference a (new_reference n) c)\<lparr>next_object_number := n + 1\<rparr>"
  from none have s: "snd (get_reference a c) = c'"
    by (simp add: get_reference_def Let_def c'_def n_def)
  have "pending c' = pending c"
  proof (rule pending_cong)
    show "length (objects c') = length (objects c)" by (simp add: c'_def)
    fix b assume b: "b < length (objects c)"
    show "unlisted c' b = unlisted c b"
    proof (cases "b = a")
      case True
      with a none fresh_not_listed[OF inv] show ?thesis
        by (simp add: unlisted_iff c'_def set_reference_def n_def)
    next
      case False
      with a b show ?thesis by (simp add: unlisted_iff c'_def set_reference_def)
    qed
  qed
  with s show ?thesis by simp
qed

lemma pending_elements:
  "elements_to_references vs out queue ctx = (out', queue', ctx') \<Longrightarrow> pass_inv L ctx \<Longrightarrow>
   pending ctx' = pending ctx"
proof -
  assume l: "elements_to_references vs out queue ctx = (out', queue', ctx')" and inv: "pass_inv L ctx"
  have "pass_inv L ctx \<longrightarrow> pass_inv L ctx' \<and> pending ctx' = pending ctx"
    by (rule elements_rel[where R = "\<lambda>c c'. pass_inv L c \<longrightarrow> pass_inv L c' \<and> pending c' = pending c",
          OF _ _ _ l])
      (auto intro: pass_inv_get_reference simp: pending_get_reference)
  with inv show ?thesis by simp
qed

lemma pending_to_references:
  assumes "to_references kvs out queue ctx = (out', queue', ctx')" and "pass_inv L ctx"
  shows "pending ctx' = pending ctx"
  using loops_agree[OF assms(1), of "[]"] pending_elements assms(2) by blast

text \<open>
  An object that was not in \<^verbatim>\<open>duplicate_references\<close> and is put there is no longer to
  be emitted, and nothing changes for the other objects.
\<close>

lemma pending_listed:
  assumes inv: "pass_inv L c" and a: "a < length (objects c)"
    and r: "back_reference (objects c ! a) = Some r"
    and new: "r \<notin> set (duplicate_references c)"
    and len: "length (objects c5) = length (objects c)"
    and oth: "\<forall>b. b \<noteq> a \<longrightarrow> back_reference (objects c5 ! b) = back_reference (objects c ! b)"
    and r': "back_reference (objects c5 ! a) = Some r'"
    and num: "object_number r' = object_number r"
    and dup: "duplicate_references c5 = duplicate_references c @ [r']"
  shows "Suc (pending c5) = pending c"
proof -
  have other: "unlisted c5 b = unlisted c b" if b: "b < length (objects c)" and ne: "b \<noteq> a" for b
  proof (cases "back_reference (objects c ! b)")
    case None
    with oth ne show ?thesis by (simp add: unlisted_iff)
  next
    case (Some x)
    have "x \<noteq> r'"
    proof
      assume "x = r'"
      with pass_invD(2)[OF inv b a Some r] num ne show False by simp
    qed
    with Some oth ne show ?thesis by (simp add: unlisted_iff dup)
  qed
  have ua: "unlisted c a" using r new by (simp add: unlisted_iff)
  have ua5: "\<not> unlisted c5 a" using r' by (simp add: unlisted_iff dup)
  have eq: "{b. b < length (objects c5) \<and> unlisted c5 b} =
        {b. b < length (objects c) \<and> unlisted c b} - {a}"
    using other ua5 len by auto
  have mem: "a \<in> {b. b < length (objects c) \<and> unlisted c b}" using a ua by simp
  have fin: "finite {b. b < length (objects c) \<and> unlisted c b}" by simp
  show "Suc (pending c5) = pending c"
    unfolding pending_def eq by (rule card_Suc_Diff1[OF fin mem])
qed

lemma step_closed_keeps_refs: "step_closed keeps_refs"
proof -
  have upd: "\<exists>y. back_reference (xs[a := (xs ! a)\<lparr>back_reference := Some r\<rparr>] ! b) = Some y"
    if "back_reference (xs ! b) = Some z" for xs :: "pdf_node list" and a b r z
  proof (cases "a < length xs")
    case True
    with that show ?thesis by (cases "b = a") auto
  next
    case False
    then have "xs[a := (xs ! a)\<lparr>back_reference := Some r\<rparr>] = xs"
      by (intro list_update_beyond) simp
    with that show ?thesis by simp
  qed
  show ?thesis
    unfolding step_closed_def keeps_refs_def
    by (auto simp: get_reference_def start_object_def set_reference_def Let_def upd
        split: option.splits)
qed

lemma root_transform_keeps_refs:
  "root_transform n v ctx = Some ctx' \<Longrightarrow> keeps_refs ctx ctx'"
  using results_in_root_transform[OF step_closed_keeps_refs, of n]
  by (simp add: results_in_def)

subsection \<open>Enough fuel\<close>

text \<open>
  What \<open>emit\<close> does before it turns to the queue does not depend on the root transformer:
  it is \<open>emit\<close> with an empty queue.
\<close>

lemma emit_split:
  "emit root a write_body queue ctx =
     (case emit (\<lambda>v c. Some c) a write_body [] ctx of
        None \<Rightarrow> None
      | Some (emitted, ctx5) \<Rightarrow>
          if emitted then map_option (Pair True) (transform_queue root queue ctx5)
          else Some (False, ctx5))"
  unfolding emit_def Let_def by (simp split: option.splits)

lemma emit_body:
  assumes body: "\<And>c c'. write_body c = Some c' \<Longrightarrow>
                   c' = c\<lparr>destination := destination c @ chunks\<rparr>"
    and pl: "\<forall>ch\<in>set chunks. plain ch"
    and inv: "pass_inv L ctx" and a: "a < length (objects ctx)"
    and e: "emit (\<lambda>v c. Some c) a write_body [] ctx = Some (True, ctx5)"
  shows "\<exists>pre post.
      pass_inv L ctx5 \<and>
      map content (objects ctx5) = map content (objects ctx) \<and>
      next_object_number ctx5 = next_object_number ctx \<and>
      destination ctx5 = destination ctx @ pre @ chunks @ post \<and>
      (text_closed (destination ctx) \<longrightarrow> text_closed (destination ctx5)) \<and>
      (\<forall>b. b \<noteq> a \<longrightarrow> back_reference (objects ctx5 ! b) = back_reference (objects ctx ! b)) \<and>
      (case back_reference (objects ctx ! a) of
         None \<Rightarrow> pre = [] \<and> post = [] \<and> ctx5 = ctx\<lparr>destination := destination ctx @ chunks\<rparr>
       | Some r \<Rightarrow>
           r \<notin> set (duplicate_references ctx) \<and>
           (if byte_offset r = None
            then (let r' = r\<lparr>byte_offset := Some (int (length (destination ctx)))\<rparr>
                  in pre = [StartObject r'] \<and> post = [EndObject] \<and>
                     back_reference (objects ctx5 ! a) = Some r' \<and>
                     duplicate_references ctx5 = duplicate_references ctx @ [r'])
            else pre = [] \<and> post = [] \<and>
                 back_reference (objects ctx5 ! a) = Some r \<and>
                 duplicate_references ctx5 = duplicate_references ctx @ [r]))"
  using emit_before_queue[OF body pl inv a e] by auto

lemma ready_kept:
  assumes "ready c v" and "keeps_refs c c'"
    and "map content (objects c') = map content (objects c)"
  shows "ready c' v"
proof -
  from assms(3) have len: "length (objects c') = length (objects c)"
    by (rule map_eq_imp_length_eq)
  have "content (objects c' ! a) = content (objects c ! a)" if "a < length (objects c)" for a
  proof -
    have "content (objects c' ! a) = map content (objects c') ! a" using that len by simp
    also have "\<dots> = content (objects c ! a)" using that assms(3) by simp
    finally show ?thesis .
  qed
  with assms(1,2) len show ?thesis unfolding ready_def keeps_refs_def by auto
qed

lemma queue_finishes:
  assumes f: "finishes L k"
  shows "pass_inv L c \<Longrightarrow> text_closed (destination c) \<Longrightarrow> closed c \<Longrightarrow> pending c \<le> k \<Longrightarrow>
    \<forall>v\<in>set queue. ready c v \<Longrightarrow>
    \<exists>c'. transform_queue (root_transform (Suc k)) queue c = Some c' \<and> pending c' \<le> pending c"
proof (induction queue arbitrary: c)
  case Nil
  then show ?case by simp
next
  case (Cons e queue)
  from Cons.prems(5) have re: "ready c e" by simp
  with f Cons.prems(1-4) obtain c1 where
    e: "root_transform (Suc k) e c = Some c1" and p1: "pending c1 \<le> pending c"
    unfolding finishes_def by blast
  from re have ve: "\<forall>b. e = Composite b \<longrightarrow> b < length (objects c)" by (simp add: ready_def)
  from keeps_inv_root_transform[of L "Suc k"] Cons.prems(1-3) ve e
  have i1: "pass_inv L c1" and t1: "text_closed (destination c1)"
    unfolding keeps_inv_def by blast+
  from root_transform_same_contents[OF e]
  have m: "map content (objects c1) = map content (objects c)" .
  from closed_same_contents[OF m Cons.prems(3)] have cl1: "closed c1" .
  from root_transform_keeps_refs[OF e] have k1: "keeps_refs c c1" .
  from Cons.prems(5) have "\<forall>v\<in>set queue. ready c1 v"
    using ready_kept[OF _ k1 m] by simp
  from Cons.IH[OF i1 t1 cl1 _ this] p1 Cons.prems(4) obtain c' where
    "transform_queue (root_transform (Suc k)) queue c1 = Some c'" "pending c' \<le> pending c1"
    by auto
  with e p1 show ?case by (auto simp del: root_transform.simps)
qed

text \<open>
  \<open>emit\<close> ends when the body can be written and the fuel is enough for the queue. An
  object without a back-reference is not counted, and needs one unit more.
\<close>

lemma emit_finishes:
  assumes inv: "pass_inv L ctx" and tc: "text_closed (destination ctx)" and cl: "closed ctx"
    and a: "a < length (objects ctx)"
    and pk: "if back_reference (objects ctx ! a) = None then pending ctx < k else pending ctx \<le> k"
    and q: "\<forall>v\<in>set queue. ready ctx v"
    and body: "\<And>c. k \<noteq> 0 \<Longrightarrow>
        write_body c = Some (c\<lparr>destination := destination c @ chunks\<rparr>)"
    and pl: "\<forall>ch\<in>set chunks. plain ch"
    and fin: "\<And>k'. k = Suc k' \<Longrightarrow> finishes L k'"
  shows "\<exists>b ctx'. emit (root_transform k) a write_body queue ctx = Some (b, ctx') \<and>
           pending ctx' \<le> pending ctx"
proof (cases "case back_reference (objects ctx ! a) of None \<Rightarrow> False
              | Some r \<Rightarrow> r \<in> set (duplicate_references ctx)")
  case True
  then have "emit (root_transform k) a write_body queue ctx = Some (False, ctx)"
    by (simp add: emit_def)
  then show ?thesis by (intro exI[of _ False] exI[of _ ctx]) simp
next
  case new: False
  have ua: "unlisted ctx a" using new by (simp add: unlisted_def split: option.splits)
  with a have "a \<in> {b. b < length (objects ctx) \<and> unlisted ctx b}" by simp
  then have "card {b. b < length (objects ctx) \<and> unlisted ctx b} \<noteq> 0" by auto
  then have "pending ctx \<noteq> 0" by (simp add: pending_def)
  with pk obtain k' where k: "k = Suc k'" by (cases k) (auto split: if_splits)
  then have bd: "write_body c = Some (c\<lparr>destination := destination c @ chunks\<rparr>)" for c
    using body by simp
  then have bd': "c' = c\<lparr>destination := destination c @ chunks\<rparr>" if "write_body c = Some c'"
    for c c' using that by simp
  from new obtain ctx5 where e0: "emit (\<lambda>v c. Some c) a write_body [] ctx = Some (True, ctx5)"
    by (auto simp: emit_def Let_def bd split: option.splits)
  from emit_body[OF bd' pl inv a e0] tc obtain pre post where
    i5: "pass_inv L ctx5" and m5: "map content (objects ctx5) = map content (objects ctx)"
    and t5: "text_closed (destination ctx5)"
    and oth: "\<forall>b. b \<noteq> a \<longrightarrow> back_reference (objects ctx5 ! b) = back_reference (objects ctx ! b)"
    and cs: "case back_reference (objects ctx ! a) of
         None \<Rightarrow> pre = [] \<and> post = [] \<and> ctx5 = ctx\<lparr>destination := destination ctx @ chunks\<rparr>
       | Some r \<Rightarrow>
           r \<notin> set (duplicate_references ctx) \<and>
           (if byte_offset r = None
            then (let r' = r\<lparr>byte_offset := Some (int (length (destination ctx)))\<rparr>
                  in pre = [StartObject r'] \<and> post = [EndObject] \<and>
                     back_reference (objects ctx5 ! a) = Some r' \<and>
                     duplicate_references ctx5 = duplicate_references ctx @ [r'])
            else pre = [] \<and> post = [] \<and>
                 back_reference (objects ctx5 ! a) = Some r \<and>
                 duplicate_references ctx5 = duplicate_references ctx @ [r])"
    by blast
  from m5 have len: "length (objects ctx5) = length (objects ctx)" by (rule map_eq_imp_length_eq)
  from closed_same_contents[OF m5 cl] have cl5: "closed ctx5" .
  have p5: "pending ctx5 \<le> k'" and le: "pending ctx5 \<le> pending ctx"
    and k5: "keeps_refs ctx ctx5"
  proof -
    have "pending ctx5 \<le> k' \<and> pending ctx5 \<le> pending ctx \<and> keeps_refs ctx ctx5"
    proof (cases "back_reference (objects ctx ! a)")
      case None
      with cs have "ctx5 = ctx\<lparr>destination := destination ctx @ chunks\<rparr>" by simp
      with pk None k show ?thesis by (simp add: keeps_refs_def)
    next
      case (Some r)
      with cs obtain r' where r': "back_reference (objects ctx5 ! a) = Some r'"
        "object_number r' = object_number r"
        "duplicate_references ctx5 = duplicate_references ctx @ [r']"
        and nw: "r \<notin> set (duplicate_references ctx)"
        by (cases "byte_offset r = None") (auto simp: Let_def)
      from pending_listed[OF inv a Some nw len oth r'] pk Some k
      have "pending ctx5 \<le> k' \<and> pending ctx5 \<le> pending ctx" by simp
      moreover have "keeps_refs ctx ctx5"
        unfolding keeps_refs_def
      proof (intro allI impI)
        fix b assume "back_reference (objects ctx ! b) \<noteq> None"
        with oth r' show "back_reference (objects ctx5 ! b) \<noteq> None" by (cases "b = a") auto
      qed
      ultimately show ?thesis by simp
    qed
    then show "pending ctx5 \<le> k'" "pending ctx5 \<le> pending ctx" "keeps_refs ctx ctx5"
      by simp_all
  qed
  from q have q5: "\<forall>v\<in>set queue. ready ctx5 v"
    using ready_kept[OF _ k5 m5] by simp
  from queue_finishes[OF fin[OF k] i5 t5 cl5 p5 q5] obtain ctx' where
    tq: "transform_queue (root_transform (Suc k')) queue ctx5 = Some ctx'"
    and p': "pending ctx' \<le> pending ctx5" by auto
  have "emit (root_transform k) a write_body queue ctx = Some (True, ctx')"
    by (subst emit_split) (simp add: e0 k tq del: root_transform.simps)
  moreover from p' le have "pending ctx' \<le> pending ctx" by simp
  ultimately show ?thesis by blast
qed

lemma composite_addressD: "composite_address v = Some a \<Longrightarrow> v = Composite a"
  by (cases v) auto

lemma after_loop:
  assumes l: "elements_to_references vs [] [] c = (out, queue, ctx1)"
    and vs: "vs = children (content (objects c ! a))"
    and inv: "pass_inv L c" and tc: "text_closed (destination c)" and cl: "closed c"
    and a: "a < length (objects c)"
  shows "pass_inv L ctx1" and "closed ctx1" and "pending ctx1 = pending c"
    and "a < length (objects ctx1)" and "text_closed (destination ctx1)"
    and "\<forall>v\<in>set queue. ready ctx1 v"
    and "ready c (Composite a) \<Longrightarrow> back_reference (objects ctx1 ! a) \<noteq> None"
proof -
  note m = same_contents_elements[OF l]
  then have len: "length (objects ctx1) = length (objects c)" by (rule map_eq_imp_length_eq)
  show "pass_inv L ctx1" by (rule pass_inv_elements[OF l inv])
  show "closed ctx1" by (rule closed_same_contents[OF m cl])
  show "pending ctx1 = pending c" by (rule pending_elements[OF l inv])
  show "a < length (objects ctx1)" using a len by simp
  note ao = elements_assigns_only[OF l]
  with tc show "text_closed (destination ctx1)" by (simp add: assigns_only_def)
  show "\<forall>v\<in>set queue. ready ctx1 v"
  proof
    fix v assume "v \<in> set queue"
    with elements_queue[OF l] have v: "v \<in> set vs" and c: "composite_address v \<noteq> None" by auto
    then obtain b where b: "v = Composite b" by (auto dest: composite_addressD)
    with v vs cl a have bl: "b < length (objects c)" unfolding closed_def by blast
    from elements_numbers_children[OF l _ bl] v b have "numbered ctx1 b" by simp
    then have "back_reference (objects ctx1 ! b) \<noteq> None"
      by (auto simp: numbered_def split: option.splits)
    with bl len b show "ready ctx1 v" by (simp add: ready_def)
  qed
  assume rd: "ready c (Composite a)"
  show "back_reference (objects ctx1 ! a) \<noteq> None"
  proof (cases "back_reference (objects c ! a)")
    case (Some r)
    with ao show ?thesis unfolding assigns_only_def by (metis option.distinct(1))
  next
    case None
    with rd have "Composite a \<in> set vs" by (simp add: ready_def vs)
    from elements_numbers_children[OF l this a] show ?thesis
      by (auto simp: numbered_def split: option.splits)
  qed
qed

lemma write_dictionary_total:
  assumes "\<forall>kv\<in>set out. composite_address (snd kv) = None"
  shows "write_dictionary (root_transform (Suc m)) out c =
           Some (c\<lparr>destination := destination c @ dictionary_chunks out\<rparr>)"
  using write_entries_chunks[OF assms, of "length out" 0 m "destination_write (Raw ''<<'') c"]
  unfolding write_dictionary_def dictionary_chunks_def
  by (simp add: destination_write_def del: root_transform.simps)

text \<open>
  A dispatch of the root transformer on the object at \<open>a\<close> ends when the fuel \<open>k\<close> is
  enough for \<open>emit\<close>.
\<close>

lemma dispatch_finishes:
  assumes inv: "pass_inv L c" and tc: "text_closed (destination c)" and cl: "closed c"
    and a: "a < length (objects c)"
    and pk: "if ready c (Composite a) then pending c \<le> k else pending c < k"
    and fin: "\<And>k'. k = Suc k' \<Longrightarrow> finishes L k'"
  shows "\<exists>c'. root_transform (Suc k) (Composite a) c = Some c' \<and> pending c' \<le> pending c"
proof (cases "\<exists>kvs. content (objects c ! a) = Dictionary kvs")
  case True
  then obtain kvs where d: "content (objects c ! a) = Dictionary kvs" by blast
  obtain out queue ctx1 where l: "to_references kvs [] [] c = (out, queue, ctx1)"
    by (cases "to_references kvs [] [] c") auto
  from loops_agree[OF l, of "[]"] obtain vs' where
    l': "elements_to_references (map snd kvs) [] [] c = (vs', queue, ctx1)" by blast
  have vs: "map snd kvs = children (content (objects c ! a))" by (simp add: d)
  note al = after_loop[OF l' vs inv tc cl a]
  from to_references_no_composite[OF l]
  have nc: "\<forall>kv\<in>set out. composite_address (snd kv) = None" by simp
  have body: "write_dictionary (root_transform k) out c0 =
        Some (c0\<lparr>destination := destination c0 @ dictionary_chunks out\<rparr>)" if "k \<noteq> 0" for c0
  proof -
    from that obtain m where "k = Suc m" by (cases k) auto
    with write_dictionary_total[OF nc, of m c0] show ?thesis by simp
  qed
  have pk1: "if back_reference (objects ctx1 ! a) = None then pending ctx1 < k
             else pending ctx1 \<le> k"
    using pk al(3) al(7) by (auto split: if_splits)
  from emit_finishes[OF al(1,5,2,4) pk1 al(6) body dictionary_chunks_plain fin]
  obtain b ctx' where
    e: "emit (root_transform k) a (write_dictionary (root_transform k) out) queue ctx1
          = Some (b, ctx')" and p: "pending ctx' \<le> pending ctx1"
    by auto
  from e l have "transform (root_transform k) a kvs c =
      Some (if b then Some out else None, ctx')"
    by (simp add: transform_def)
  with d have "root_transform (Suc k) (Composite a) c = Some ctx'" by simp
  with p al(3) show ?thesis by simp
next
  case False
  define c0 where "c0 = content (objects c ! a)"
  obtain out queue ctx1 where
    l: "elements_to_references (children c0) [] [] c = (out, queue, ctx1)"
    by (cases "elements_to_references (children c0) [] [] c") auto
  have vs: "children c0 = children (content (objects c ! a))" by (simp add: c0_def)
  note al = after_loop[OF l vs inv tc cl a]
  have body: "(\<lambda>ctx'. Some (destination_write (Body (with_children c0 out)) ctx')) c1 =
        Some (c1\<lparr>destination := destination c1 @ [Body (with_children c0 out)]\<rparr>)" for c1
    by (simp add: destination_write_def)
  have pl: "\<forall>ch\<in>set [Body (with_children c0 out)]. plain ch" by simp
  have pk1: "if back_reference (objects ctx1 ! a) = None then pending ctx1 < k
             else pending ctx1 \<le> k"
    using pk al(3) al(7) by (auto split: if_splits)
  from emit_finishes[OF al(1,5,2,4) pk1 al(6) body pl fin]
  obtain b ctx' where
    e: "emit (root_transform k) a
          (\<lambda>ctx'. Some (destination_write (Body (with_children c0 out)) ctx')) queue ctx1
          = Some (b, ctx')" and p: "pending ctx' \<le> pending ctx1"
    by auto
  from e l have t: "transform_other (root_transform k) a c0 c = Some ctx'"
    by (simp add: transform_other_def)
  have "root_transform (Suc k) (Composite a) c = Some ctx'"
  proof (cases "content (objects c ! a)")
    case (Dictionary kvs)
    with False show ?thesis by simp
  next
    case (List vs)
    with t show ?thesis by (simp add: c0_def)
  next
    case (Stream kvs bs)
    with t show ?thesis by (simp add: c0_def)
  next
    case Image
    with t show ?thesis by (simp add: c0_def)
  qed
  with p al(3) show ?thesis by simp
qed

lemma finishes_step:
  assumes fin: "\<And>k'. k = Suc k' \<Longrightarrow> finishes L k'"
  shows "finishes L k"
  unfolding finishes_def
proof (intro allI impI)
  fix v c
  assume inv: "pass_inv L c" and tc: "text_closed (destination c)" and cl: "closed c"
    and pk: "pending c \<le> k" and rd: "ready c v"
  show "\<exists>c'. root_transform (Suc k) v c = Some c' \<and> pending c' \<le> pending c"
  proof (cases "composite_address v")
    case None
    then show ?thesis by (simp add: root_transform_leaf del: root_transform.simps)
  next
    case (Some a)
    then have v: "v = Composite a" by (rule composite_addressD)
    from rd v have a: "a < length (objects c)" and rda: "ready c (Composite a)"
      by (simp_all add: ready_def)
    from rda pk have "if ready c (Composite a) then pending c \<le> k else pending c < k" by simp
    from dispatch_finishes[OF inv tc cl a this fin] v show ?thesis by simp
  qed
qed

lemma finishes_all: "finishes L k"
proof (induction k)
  case 0
  show ?case by (rule finishes_step) simp
next
  case (Suc k)
  show ?case by (rule finishes_step) (use Suc in simp)
qed

text \<open>
  A pass over an object of the store ends, with two units of fuel more than there are
  objects to emit.
\<close>

lemma pass_terminates:
  assumes "pass_inv L c" and "text_closed (destination c)" and "closed c"
    and "a < length (objects c)"
  shows "\<exists>c'. root_transform (Suc (Suc (pending c))) (Composite a) c = Some c'"
proof -
  have "if ready c (Composite a) then pending c \<le> Suc (pending c)
        else pending c < Suc (pending c)" by simp
  from dispatch_finishes[OF assms this finishes_all] show ?thesis by blast
qed

subsection \<open>What a pass has written at its end\<close>

lemma step_closed_keeps_numbers: "step_closed keeps_numbers"
proof -
  have upd: "\<exists>y. back_reference (xs[a := (xs ! a)\<lparr>back_reference := Some r\<rparr>] ! b) = Some y \<and>
        object_number y = object_number z"
    if "back_reference (xs ! b) = Some z" "b = a \<Longrightarrow> object_number r = object_number z"
    for xs :: "pdf_node list" and a b r z
  proof (cases "a < length xs")
    case True
    with that show ?thesis by (cases "b = a") auto
  next
    case False
    then have "xs[a := (xs ! a)\<lparr>back_reference := Some r\<rparr>] = xs"
      by (intro list_update_beyond) simp
    with that show ?thesis by simp
  qed
  have get: "keeps_numbers c (snd (get_reference a c))" for a c
  proof (cases "numbered c a")
    case True
    then have "snd (get_reference a c) = c"
      by (auto simp: get_reference_def numbered_def Let_def split: option.splits)
    then show ?thesis by (simp add: keeps_numbers_def)
  next
    case False
    then have s: "snd (get_reference a c) =
        (set_reference a (new_reference (next_object_number c)) c)
          \<lparr>next_object_number := next_object_number c + 1\<rparr>"
      by (auto simp: get_reference_def numbered_def Let_def split: option.splits)
    show ?thesis
      unfolding s keeps_numbers_def
    proof (intro allI impI)
      fix b r assume h: "back_reference (objects c ! b) = Some r \<and> object_number r \<noteq> None"
      with False have "b \<noteq> a" by (auto simp: numbered_def)
      with h upd[of "objects c" b r a "new_reference (next_object_number c)"]
      show "\<exists>r'. back_reference
                 (objects
                   ((set_reference a (new_reference (next_object_number c)) c)
                    \<lparr>next_object_number := next_object_number c + 1\<rparr>) ! b) = Some r' \<and>
                object_number r' = object_number r"
        by (simp add: set_reference_def)
    qed
  qed
  have start: "keeps_numbers c (start_object a c)" for a c
    unfolding keeps_numbers_def
  proof (intro allI impI)
    fix b r assume h: "back_reference (objects c ! b) = Some r \<and> object_number r \<noteq> None"
    show "\<exists>r'. back_reference (objects (start_object a c) ! b) = Some r' \<and>
        object_number r' = object_number r"
    proof (cases "back_reference (objects c ! a)")
      case None
      with h show ?thesis by (simp add: start_object_def)
    next
      case (Some x)
      from h have br: "back_reference (objects c ! b) = Some r" by simp
      have "object_number (x\<lparr>byte_offset := Some (int (length (destination c)))\<rparr>) =
          object_number r" if "b = a"
        using that br Some by simp
      from upd[OF br this] Some
      show ?thesis by (simp add: start_object_def Let_def set_reference_def)
    qed
  qed
  show ?thesis
    unfolding step_closed_def
    using get start by (auto simp: keeps_numbers_def) (metis+)
qed

lemma root_transform_keeps_numbers:
  "root_transform n v ctx = Some ctx' \<Longrightarrow> keeps_numbers ctx ctx'"
  using results_in_root_transform[OF step_closed_keeps_numbers, of n]
  by (simp add: results_in_def)


lemma emit_inserts_before_queue:
  assumes e: "emit (root_transform n) a (write_dictionary (root_transform n) out) queue ctx
              = Some (True, ctx')"
    and nc: "\<forall>kv\<in>set out. composite_address (snd kv) = None"
    and r: "back_reference (objects ctx ! a) = Some r"
  shows "\<exists>ctx5 r'. duplicate_references ctx5 = duplicate_references ctx @ [r'] \<and>
      back_reference (objects ctx5 ! a) = Some r' \<and>
      transform_queue (root_transform n) queue ctx5 = Some ctx'"
proof -
  define started where "started = (case back_reference (objects ctx ! a) of None \<Rightarrow> False
                | Some r \<Rightarrow> object_number r \<noteq> None \<and> byte_offset r = None)"
  define ctx2 where "ctx2 = (if started then start_object a ctx else ctx)"
  define ctx3 where "ctx3 = (case back_reference (objects ctx2 ! a) of
                  None \<Rightarrow> ctx2
                | Some r \<Rightarrow> ctx2\<lparr>duplicate_references := duplicate_references ctx2 @ [r]\<rparr>)"
  from e obtain ctx4 where
    w: "write_dictionary (root_transform n) out ctx3 = Some ctx4" and
    q: "transform_queue (root_transform n) queue (if started then end_object a ctx4 else ctx4)
          = Some ctx'"
    unfolding started_def ctx2_def ctx3_def by (auto elim!: emit_TrueE simp: Let_def)
  define ctx5 where "ctx5 = (if started then end_object a ctx4 else ctx4)"
  have "\<exists>r'. back_reference (objects ctx2 ! a) = Some r'"
  proof (cases "a < length (objects ctx)")
    case True
    with r show ?thesis
      by (simp add: ctx2_def start_object_def Let_def set_reference_def)
  next
    case False
    then have "(objects ctx)[a := x] = objects ctx" for x
      by (intro list_update_beyond) simp
    with r show ?thesis
      by (simp add: ctx2_def start_object_def Let_def set_reference_def)
  qed
  then obtain r' where r': "back_reference (objects ctx2 ! a) = Some r'" by blast
  have d2: "duplicate_references ctx2 = duplicate_references ctx"
    by (simp add: ctx2_def start_object_def Let_def split: option.splits)
  from r' have c3: "ctx3 = ctx2\<lparr>duplicate_references := duplicate_references ctx2 @ [r']\<rparr>"
    by (simp add: ctx3_def)
  from write_dictionary_chunks[OF nc w]
  have c4: "ctx4 = ctx3\<lparr>destination := destination ctx3 @ dictionary_chunks out\<rparr>" .
  have "duplicate_references ctx5 = duplicate_references ctx @ [r']"
    by (simp add: ctx5_def c4 c3 d2)
  moreover have "back_reference (objects ctx5 ! a) = Some r'"
    by (simp add: ctx5_def c4 c3 r')
  moreover from q have "transform_queue (root_transform n) queue ctx5 = Some ctx'"
    by (simp add: ctx5_def)
  ultimately show ?thesis by blast
qed


text \<open>
  An object that is not to be emitted any more is located exactly when its number is
  one of those that were located before the pass.
\<close>

lemma unlisted_located:
  assumes inv: "pass_inv L c" and b: "b < length (objects c)"
    and r: "back_reference (objects c ! b) = Some r" and n: "object_number r = Some N"
    and u: "unlisted c b"
  shows "located c b \<longleftrightarrow> N \<in> L"
  using pass_invD(3)[OF inv b r] r n u by (auto simp: located_def unlisted_iff)










section \<open>The claims about what a pass emits\<close>

lemma pass_state_new_context:
  assumes "\<forall>b<length objs. \<forall>r. back_reference (objs ! b) = Some r \<longrightarrow>
             (\<exists>m. object_number r = Some m \<and> m < n)"
    and "\<forall>b<length objs. \<forall>b'<length objs. \<forall>r r'.
           back_reference (objs ! b) = Some r \<and> back_reference (objs ! b') = Some r' \<and>
           object_number r = object_number r' \<longrightarrow> b = b'"
    and "closed (new_context objs n)"
  shows "pass_state (new_context objs n)"
  unfolding pass_state_def
  using pass_inv_new_context[OF assms(1,2)] assms(3) by (auto simp: new_context_def)

text \<open>Every state that a pass reaches from a state of a pass is one.\<close>

lemma pass_state_root_transform:
  assumes "pass_state c" and "b < length (objects c)"
    and "root_transform n (Composite b) c = Some c'"
  shows "pass_state c'"
proof -
  from assms(1) obtain L where inv: "pass_inv L c" and tc: "text_closed (destination c)"
    and cl: "closed c" unfolding pass_state_def by blast
  from pass_inv_root_transform[OF inv tc cl assms(2,3)]
    closed_same_contents[OF root_transform_same_contents[OF assms(3)] cl]
  show ?thesis unfolding pass_state_def by blast
qed

lemma pass_stateE:
  assumes "pass_state c"
  obtains L where "pass_inv L c" and "text_closed (destination c)" and "closed c"
  using assms unfolding pass_state_def by blast

text \<open>
  C5, as stated: every reference in \<^verbatim>\<open>duplicate_references\<close> at the end of a pass has
  exactly one body \<^verbatim>\<open>N G obj ... endobj\<close> in the output. The source starts an object
  only when its reference has no byte offset yet (line 60), and appends the reference to
  \<^verbatim>\<open>duplicate_references\<close> in either case (line 63): the pass over
  \<open>located_dictionary\<close> writes the bare dictionary, without \<^verbatim>\<open>5 0 obj\<close> and
  \<^verbatim>\<open>endobj\<close>, and leaves its reference in \<^verbatim>\<open>duplicate_references\<close>.
\<close>

theorem located_dictionary_counterexample:
  "root_transform 2 (Composite 0) (new_context located_dictionary 6) =
     Some \<lparr>objects = located_dictionary,
           destination = [Raw ''<<'', Raw (''>>'' @ [CHR 0x0A])],
           duplicate_references = [(new_reference 5)\<lparr>byte_offset := Some 100\<rparr>],
           next_object_number = 6\<rparr>"
  by code_simp

text \<open>
  C5, amended. A dictionary whose back-reference is in \<^verbatim>\<open>duplicate_references\<close> after
  the loop of lines 41 to 51 is not emitted: \<^verbatim>\<open>transform\<close> returns \<^verbatim>\<open>None\<close>, and neither
  the destination nor \<^verbatim>\<open>duplicate_references\<close> has changed. Otherwise its
  back-reference is appended to \<^verbatim>\<open>duplicate_references\<close> before the queue is
  transformed. A pass over an object of the store ends, with a number of dispatches of at
  most the number of objects plus two. And at the end of a pass that has started in a
  state \<open>c\<close> of a pass, no object number has more than one line \<^verbatim>\<open>N G obj\<close> in the
  destination, every line \<^verbatim>\<open>N G obj\<close> has its body up to \<^verbatim>\<open>endobj\<close>, and every
  reference in \<^verbatim>\<open>duplicate_references\<close> is the back-reference of an object and has
  exactly one body \<^verbatim>\<open>N G obj ... endobj\<close> when the object had no byte offset before it
  was emitted, and none when it had one; for an object that was emitted before \<open>c\<close> the
  number of lines is as it was in \<open>c\<close>.
\<close>

theorem one_body_per_started_reference:
  "(to_references kvs [] [] ctx = (out_value, queue, ctx_l) \<and>
    back_reference (objects ctx_l ! a) = Some r \<and> r \<in> set (duplicate_references ctx_l) \<longrightarrow>
      transform root a kvs ctx = Some (None, ctx_l) \<and>
      destination ctx_l = destination ctx \<and>
      duplicate_references ctx_l = duplicate_references ctx) \<and>
   (to_references kvs [] [] ctx = (out_value, queue, ctx_l) \<and>
    back_reference (objects ctx_l ! a) = Some r \<and> r \<notin> set (duplicate_references ctx_l) \<and>
    transform (root_transform n) a kvs ctx = Some (ret, ctx') \<longrightarrow>
      (\<exists>ctx5 r'. duplicate_references ctx5 = duplicate_references ctx @ [r'] \<and>
         back_reference (objects ctx5 ! a) = Some r' \<and>
         transform_queue (root_transform n) queue ctx5 = Some ctx')) \<and>
   (pass_state c \<and> b < length (objects c) \<longrightarrow>
      (\<exists>k c'. k \<le> length (objects c) + 2 \<and> root_transform k (Composite b) c = Some c')) \<and>
   (pass_state c \<and> b < length (objects c) \<and>
    root_transform m (Composite b) c = Some c' \<longrightarrow>
      (\<forall>N. object_headers N (destination c') \<le> 1 \<and>
           object_bodies N False (destination c') = object_headers N (destination c')) \<and>
      (\<forall>x\<in>set (duplicate_references c').
         \<exists>d<length (objects c). \<exists>N.
           back_reference (objects c' ! d) = Some x \<and> object_number x = Some N \<and>
           object_headers N (destination c') =
             (if unlisted c d then (if located c d then 0 else 1)
              else object_headers N (destination c))))"
proof (intro conjI impI)
  assume h: "to_references kvs [] [] ctx = (out_value, queue, ctx_l) \<and>
    back_reference (objects ctx_l ! a) = Some r \<and> r \<in> set (duplicate_references ctx_l)"
  then show "transform root a kvs ctx = Some (None, ctx_l)"
    by (simp add: transform_def emit_def)
  from h to_references_assigns_only[of kvs "[]" "[]" ctx out_value queue ctx_l]
  show "destination ctx_l = destination ctx" "duplicate_references ctx_l = duplicate_references ctx"
    by (simp_all add: assigns_only_def)
next
  assume h: "to_references kvs [] [] ctx = (out_value, queue, ctx_l) \<and>
    back_reference (objects ctx_l ! a) = Some r \<and> r \<notin> set (duplicate_references ctx_l) \<and>
    transform (root_transform n) a kvs ctx = Some (ret, ctx')"
  then have l: "to_references kvs [] [] ctx = (out_value, queue, ctx_l)"
    and r: "back_reference (objects ctx_l ! a) = Some r"
    and new: "r \<notin> set (duplicate_references ctx_l)" by simp_all
  from h obtain emitted where
    e: "emit (root_transform n) a (write_dictionary (root_transform n) out_value) queue ctx_l
          = Some (emitted, ctx')"
    by (auto simp: transform_def split: option.splits)
  have "emitted"
  proof (rule ccontr)
    assume "\<not> emitted"
    with e r new show False by (auto dest!: emit_FalseD)
  qed
  with e have e: "emit (root_transform n) a (write_dictionary (root_transform n) out_value)
      queue ctx_l = Some (True, ctx')" by simp
  from to_references_no_composite[OF l]
  have nc: "\<forall>kv\<in>set out_value. composite_address (snd kv) = None" by simp
  from emit_inserts_before_queue[OF e nc r] to_references_assigns_only[OF l]
  show "\<exists>ctx5 r'. duplicate_references ctx5 = duplicate_references ctx @ [r'] \<and>
         back_reference (objects ctx5 ! a) = Some r' \<and>
         transform_queue (root_transform n) queue ctx5 = Some ctx'"
    by (simp add: assigns_only_def)
next
  assume "pass_state c \<and> b < length (objects c)"
  then obtain L where inv: "pass_inv L c" and tc: "text_closed (destination c)"
    and cl: "closed c" and b: "b < length (objects c)" by (auto elim: pass_stateE)
  from pass_terminates[OF inv tc cl b] obtain c' where
    "root_transform (Suc (Suc (pending c))) (Composite b) c = Some c'" by blast
  moreover from pending_bound[of c] have "Suc (Suc (pending c)) \<le> length (objects c) + 2"
    by simp
  ultimately show "\<exists>k c'. k \<le> length (objects c) + 2 \<and>
      root_transform k (Composite b) c = Some c'" by blast
next
  assume h: "pass_state c \<and> b < length (objects c) \<and>
    root_transform m (Composite b) c = Some c'"
  then obtain L where inv: "pass_inv L c" and tc: "text_closed (destination c)"
    and cl: "closed c" and b: "b < length (objects c)"
    and run: "root_transform m (Composite b) c = Some c'" by (auto elim: pass_stateE)
  note inv' = pass_inv_root_transform(1)[OF inv tc cl b run]
  note tc' = pass_inv_root_transform(2)[OF inv tc cl b run]
  note kn = root_transform_keeps_numbers[OF run]
  from root_transform_extends[OF run] have len: "length (objects c') = length (objects c)"
    by (simp add: extends_def)
  show "\<forall>N. object_headers N (destination c') \<le> 1 \<and>
      object_bodies N False (destination c') = object_headers N (destination c')"
    using pass_invD(6)[OF inv'] tc' by (simp add: text_closed_def)
  show "\<forall>x\<in>set (duplicate_references c').
         \<exists>d<length (objects c). \<exists>N.
           back_reference (objects c' ! d) = Some x \<and> object_number x = Some N \<and>
           object_headers N (destination c') =
             (if unlisted c d then (if located c d then 0 else 1)
              else object_headers N (destination c))"
  proof
    fix x assume x: "x \<in> set (duplicate_references c')"
    from pass_invD(4)[OF inv' x] len obtain d where d: "d < length (objects c)"
      and xd: "back_reference (objects c' ! d) = Some x" by auto
    from pass_invD(1)[OF inv' _ xd] d len obtain N where N: "object_number x = Some N" by auto
    have h': "object_headers N (destination c') = (if N \<notin> L then 1 else 0)"
      using pass_invD(6)[OF inv', of N] x N by auto
    have "object_headers N (destination c') =
             (if unlisted c d then (if located c d then 0 else 1)
              else object_headers N (destination c))"
    proof (cases "back_reference (objects c ! d)")
      case None
      have "N \<notin> L"
      proof
        assume "N \<in> L"
        from pass_invD(7)[OF inv this] obtain b0 r0 where b0: "b0 < length (objects c)"
          "back_reference (objects c ! b0) = Some r0" "object_number r0 = Some N" by blast
        with kn obtain r0' where r0': "back_reference (objects c' ! b0) = Some r0'"
          "object_number r0' = Some N" unfolding keeps_numbers_def by force
        from pass_invD(2)[OF inv' _ _ r0'(1) xd] b0(1) d len r0'(2) N have "b0 = d" by simp
        with b0(2) None show False by simp
      qed
      with h' None show ?thesis by (simp add: unlisted_def located_def)
    next
      case (Some rc)
      from pass_invD(1)[OF inv d Some] have "object_number rc \<noteq> None" by auto
      with kn Some xd N have nc: "object_number rc = Some N" unfolding keeps_numbers_def by force
      show ?thesis
      proof (cases "unlisted c d")
        case True
        from unlisted_located[OF inv d Some nc True] h' True show ?thesis by simp
      next
        case False
        with Some have "rc \<in> set (duplicate_references c)" by (simp add: unlisted_iff)
        with pass_invD(6)[OF inv, of N] nc
        have "object_headers N (destination c) = (if N \<notin> L then 1 else 0)" by auto
        with h' False show ?thesis by simp
      qed
    qed
    with d xd N show "\<exists>d<length (objects c). \<exists>N.
           back_reference (objects c' ! d) = Some x \<and> object_number x = Some N \<and>
           object_headers N (destination c') =
             (if unlisted c d then (if located c d then 0 else 1)
              else object_headers N (destination c))" by blast
  qed
qed

theorem one_body_per_started_reference_witness:
  "root_transform 3 (Composite 0) (new_context self_and_located_child 6) \<noteq> None \<and>
   map object_number
     (duplicate_references (the (root_transform 3 (Composite 0) (new_context self_and_located_child 6))))
     = [Some 6, Some 5] \<and>
   object_bodies 6 False
     (destination (the (root_transform 3 (Composite 0) (new_context self_and_located_child 6)))) = 1 \<and>
   object_bodies 5 False
     (destination (the (root_transform 3 (Composite 0) (new_context self_and_located_child 6)))) = 0 \<and>
   (\<forall>N. object_headers N
          (destination (the (root_transform 3 (Composite 0) (new_context self_and_located_child 6))))
          \<le> 1 \<and>
        object_bodies N False
          (destination (the (root_transform 3 (Composite 0) (new_context self_and_located_child 6))))
        = object_headers N
          (destination (the (root_transform 3 (Composite 0) (new_context self_and_located_child 6))))) \<and>
   list_all
     (\<lambda>x. \<exists>d<length (objects (new_context self_and_located_child 6)). \<exists>N.
        back_reference
          (objects (the (root_transform 3 (Composite 0) (new_context self_and_located_child 6))) ! d)
          = Some x \<and>
        object_number x = Some N \<and>
        object_headers N
          (destination (the (root_transform 3 (Composite 0) (new_context self_and_located_child 6))))
        = (if unlisted (new_context self_and_located_child 6) d
           then (if located (new_context self_and_located_child 6) d then 0 else 1)
           else object_headers N (destination (new_context self_and_located_child 6))))
     (duplicate_references
        (the (root_transform 3 (Composite 0) (new_context self_and_located_child 6)))) \<and>
   (\<exists>k c'. k \<le> length (objects (new_context self_and_located_child 6)) + 2 \<and>
      root_transform k (Composite 0) (new_context self_and_located_child 6) = Some c')"
  (is "?A \<and> ?B \<and> ?C \<and> ?D \<and> ?E \<and> ?F \<and> ?G")
proof -
  let ?c = "new_context self_and_located_child 6"
  let ?c' = "the (root_transform 3 (Composite 0) ?c)"
  have a: ?A by code_simp
  have b: ?B by code_simp
  have c: ?C by code_simp
  have d: ?D by code_simp
  from a have run: "root_transform 3 (Composite 0) ?c = Some ?c'" by auto
  have cl: "closed ?c"
    by (simp add: closed_def new_context_def self_and_located_child_def All_less_Suc)
  have ps: "pass_state ?c"
    by (rule pass_state_new_context[OF _ _ cl])
      (simp_all add: self_and_located_child_def All_less_Suc new_reference_def)
  have len: "0 < length (objects ?c)" by (simp add: new_context_def self_and_located_child_def)
  note inst = one_body_per_started_reference[where c = ?c and b = 0 and m = 3 and c' = ?c']
  from inst ps len run have e: ?E and g: ?G by blast+
  from inst ps len run have f: ?F unfolding list_all_iff by blast
  show ?thesis by (rule conjI[OF a conjI[OF b conjI[OF c conjI[OF d conjI[OF e conjI[OF f g]]]]]])
qed








end
